theory Spec2Isabelle
  imports Main "HOL-Library.Word"
begin

unbundle bit_operations_syntax

section \<open>Data model of the DHT walk (p2p/discover)\<close>

text \<open>
  \<open>enode.ID\<close> is a 32-byte array, read here as one 256-bit word (big-endian). A node
  is a pointer to a record of which the walk reads only the ID; the second field stands
  for everything else (address, ENR), so that two different nodes can carry the same ID.
  A nil \<open>*enode.Node\<close> is \<open>None\<close> of \<open>node option\<close>.
\<close>

type_synonym ID = "256 word"

record node =
  node_ID :: ID
  node_rec :: nat

text \<open>The \<open>any\<close>-typed target payload of a query: nil, a v4 public key (64 bytes), a
  node ID, or a list of bucket distances.\<close>

datatype target =
    TargetNil
  | TargetPubkey "nat list"
  | TargetID ID
  | TargetDists "nat list"

text \<open>Go's \<open>int\<close> is 64 bits wide and wraps; \<open>int64\<close> is that wrap-around on
  mathematical integers.\<close>

definition int64 :: "int \<Rightarrow> int" where
  "int64 x = (x + 2 ^ 63) mod 2 ^ 64 - 2 ^ 63"

text \<open>Modelled from the spec: the constant \<open>alpha\<close> is declared outside the files at
  hand; the spec's list of constants gives alpha (concurrency) = 3.\<close>

definition alpha :: int where
  "alpha = 3"

text \<open>Modelled from the spec: \<open>randomSource\<close> is an interface declared outside the
  files at hand (an injectable random source). It is a tape of raw draws and a read
  position; \<open>Intn n\<close> yields a value in \<open>[0, n)\<close> and panics (here \<open>None\<close>) for
  \<open>n = 0\<close>, and \<open>Read\<close> fills a byte buffer.\<close>

record rng =
  tape :: "nat \<Rightarrow> nat"
  pos :: nat

definition Intn :: "nat \<Rightarrow> rng \<Rightarrow> (nat \<times> rng) option" where
  "Intn n g = (if n = 0 then None
               else Some (tape g (pos g) mod n, g\<lparr>pos := Suc (pos g)\<rparr>))"

definition Read :: "nat \<Rightarrow> rng \<Rightarrow> nat list \<times> rng" where
  "Read k g = (map (\<lambda>j. tape g (pos g + j) mod 256) [0..<k], g\<lparr>pos := pos g + k\<rparr>)"

text \<open>Modelled from the spec: the routing table \<open>Table\<close> is an external collaborator,
  reached through \<open>self\<close>, \<open>readRandomNodes\<close>, \<open>findnodeByID\<close> and \<open>trackRequest\<close>.
  It holds the local node, the nodes of its buckets, the nodes it hands out as random
  ones, its random source, and a log of the liveness reports it received.\<close>

record table =
  tab_self :: node
  tab_nodes :: "node list"
  tab_random :: "node list"
  tab_rand :: rng
  tab_tracked :: "(node \<times> bool \<times> node list) list"

definition self :: "table \<Rightarrow> node" where
  "self t = tab_self t"

definition readRandomNodes :: "table \<Rightarrow> nat \<Rightarrow> node list" where
  \<comment> \<open>fills up to \<open>len(buf)\<close> random nodes and returns how many: the filled prefix\<close>
  "readRandomNodes t n = take n (tab_random t)"

definition trackRequest :: "table \<Rightarrow> node \<Rightarrow> bool \<Rightarrow> node list \<Rightarrow> table" where
  "trackRequest t n success found = t\<lparr>tab_tracked := tab_tracked t @ [(n, success, found)]\<rparr>"

subsection \<open>walk.go: query, route, walk\<close>

record query =
  qtarget :: target
  qnode :: node
  qerr :: "string option"
  qresp :: "node option list"

text \<open>The \<open>route\<close> interface as a record of its four methods over the route's own
  state \<open>'r\<close>. A method that panics or does not return yields \<open>None\<close>.\<close>

record 'r route =
  r_init :: "table \<Rightarrow> 'r \<Rightarrow> (bool \<times> 'r) option"
  r_nextHop :: "'r \<Rightarrow> ((node option \<times> target) \<times> 'r) option"
  r_addFoundNodes :: "node list \<Rightarrow> 'r \<Rightarrow> 'r option"
  r_result :: "'r \<Rightarrow> node list"

text \<open>\<open>seen\<close> is a \<open>map[enode.ID]bool\<close> whose entries are only ever set to true: a set
  of IDs.\<close>

record 'r walk =
  tab :: table
  seen :: "ID set"
  replyBuffer :: "node list"
  route :: 'r
  queries :: int
  inited :: bool

definition newWalk :: "table \<Rightarrow> 'r \<Rightarrow> 'r walk" where
  "newWalk t r = \<lparr>tab = t, seen = {node_ID (self t)}, replyBuffer = [], route = r,
                  queries = 0, inited = False\<rparr>"

text \<open>The part of \<open>advance\<close> after the init block.\<close>

definition advance_hop :: "'r route \<Rightarrow> 'r walk \<Rightarrow> ((query option \<times> bool) \<times> 'r walk) option" where
  "advance_hop rt w =
     (if queries w \<ge> alpha then Some ((None, False), w)
      else case r_nextHop rt (route w) of
             None \<Rightarrow> None
           | Some ((n, tg), r') \<Rightarrow>
               (case n of
                  None \<Rightarrow> Some ((None, queries w = 0), w\<lparr>route := r'\<rparr>)
                | Some nd \<Rightarrow>
                    Some ((Some \<lparr>qtarget = tg, qnode = nd, qerr = None, qresp = []\<rparr>,
                           int64 (queries w + 1) = 0),
                          w\<lparr>route := r', queries := int64 (queries w + 1)\<rparr>)))"

definition advance :: "'r route \<Rightarrow> 'r walk \<Rightarrow> ((query option \<times> bool) \<times> 'r walk) option" where
  "advance rt w =
     (if \<not> inited w then
        (case r_init rt (tab w) (route w) of
           None \<Rightarrow> None
         | Some (ok, r') \<Rightarrow>
             if \<not> ok then Some ((None, True), w\<lparr>route := r'\<rparr>)
             else advance_hop rt (w\<lparr>route := r', inited := True\<rparr>))
      else advance_hop rt w)"

text \<open>The loop of \<open>handleResponse\<close> over \<open>q.resp\<close>, threading \<open>seen\<close> and the reply
  buffer.\<close>

fun dedup :: "ID set \<Rightarrow> node list \<Rightarrow> node option list \<Rightarrow> ID set \<times> node list" where
  "dedup sn buf [] = (sn, buf)"
| "dedup sn buf (None # ns) = dedup sn buf ns"
| "dedup sn buf (Some n # ns) =
     (if node_ID n \<notin> sn then dedup (insert (node_ID n) sn) (buf @ [n]) ns
      else dedup sn buf ns)"

definition handleResponse :: "'r route \<Rightarrow> 'r walk \<Rightarrow> query \<Rightarrow> 'r walk option" where
  "handleResponse rt w q =
     (case dedup (seen w) [] (qresp q) of
        (sn, buf) \<Rightarrow>
          (case r_addFoundNodes rt buf (route w) of
             None \<Rightarrow> None
           | Some r' \<Rightarrow>
               Some (w\<lparr>seen := sn, replyBuffer := buf, route := r',
                       queries := int64 (queries w - 1),
                       tab := trackRequest (tab w) (qnode q) (length (qresp q) > 0) buf\<rparr>)))"

subsection \<open>Interleavings of advance and handleResponse\<close>

text \<open>
  A driver (\<open>runWalk\<close>, \<open>walkIterator.Next\<close>, the test) calls \<open>advance\<close> and hands
  every emitted query, once the transport has filled in \<open>err\<close> and \<open>resp\<close>, to
  \<open>handleResponse\<close>, in any order. An event is one such call: \<open>Handle i e rs\<close> completes
  the \<open>i\<close>-th query still in flight with error \<open>e\<close> and response \<open>rs\<close>. Next to the
  walk the run records what was observable: the queries in flight, the hop nodes, the
  results of \<open>advance\<close>, every list forwarded to \<open>addFoundNodes\<close>, and all response
  entries handled.
\<close>

datatype event = Advance | Handle nat "string option" "node option list"

record 'r run_state =
  the_walk :: "'r walk"
  in_flight :: "query list"
  hops :: "node list"
  outs :: "(query option \<times> bool) list"
  forwarded :: "node list"
  replied :: "node option list"

definition start :: "table \<Rightarrow> 'r \<Rightarrow> 'r run_state" where
  "start t r = \<lparr>the_walk = newWalk t r, in_flight = [], hops = [], outs = [],
                forwarded = [], replied = []\<rparr>"

fun step :: "'r route \<Rightarrow> 'r run_state \<Rightarrow> event \<Rightarrow> 'r run_state option" where
  "step rt s Advance =
     (case advance rt (the_walk s) of
        None \<Rightarrow> None
      | Some ((None, fin), w') \<Rightarrow>
          Some (s\<lparr>the_walk := w', outs := outs s @ [(None, fin)]\<rparr>)
      | Some ((Some q, fin), w') \<Rightarrow>
          Some (s\<lparr>the_walk := w', in_flight := in_flight s @ [q],
                  hops := hops s @ [qnode q], outs := outs s @ [(Some q, fin)]\<rparr>))"
| "step rt s (Handle i e rs) =
     (if i < length (in_flight s) then
        (case handleResponse rt (the_walk s) ((in_flight s ! i)\<lparr>qerr := e, qresp := rs\<rparr>) of
           None \<Rightarrow> None
         | Some w' \<Rightarrow>
             Some (s\<lparr>the_walk := w',
                     in_flight := take i (in_flight s) @ drop (Suc i) (in_flight s),
                     forwarded := forwarded s @ replyBuffer w',
                     replied := replied s @ rs\<rparr>))
      else None)"

fun run :: "'r route \<Rightarrow> 'r run_state \<Rightarrow> event list \<Rightarrow> 'r run_state option" where
  "run rt s [] = Some s"
| "run rt s (e # es) = (case step rt s e of None \<Rightarrow> None | Some s' \<Rightarrow> run rt s' es)"

subsection \<open>The fixed route of the walk test\<close>

definition fixedRoute :: "(node list) route" where
  "fixedRoute =
     \<lparr>r_init = (\<lambda>t r. Some (True, r)),
      r_nextHop = (\<lambda>r. case r of [] \<Rightarrow> Some ((None, TargetNil), r)
                               | n # rest \<Rightarrow> Some ((Some n, TargetNil), rest)),
      r_addFoundNodes = (\<lambda>ns r. Some r),
      r_result = (\<lambda>r. [])\<rparr>"

subsection \<open>The lookup route\<close>

text \<open>Modelled from the spec: \<open>enode.LogDist\<close> is declared outside the files at hand.
  The spec defines \<open>logdist(a, b)\<close> as \<open>256 - leading_zero_bits(a XOR b)\<close> when
  \<open>a \<noteq> b\<close>, and \<open>0\<close> when \<open>a = b\<close>. \<open>leading_zeros n w\<close> counts the zero bits of
  \<open>w\<close> from bit \<open>n - 1\<close> downwards.\<close>

fun leading_zeros :: "nat \<Rightarrow> ID \<Rightarrow> nat" where
  "leading_zeros 0 w = 0"
| "leading_zeros (Suc n) w = (if bit w n then 0 else Suc (leading_zeros n w))"

definition LogDist :: "ID \<Rightarrow> ID \<Rightarrow> int" where
  "LogDist a b = (if a = b then 0 else 256 - int (leading_zeros 256 (a XOR b)))"

text \<open>Modelled from the spec: the constants \<open>bucketSize\<close> (k = 16) and
  \<open>lookupRequestLimit\<close> (= 3) are declared outside the files at hand.\<close>

definition bucketSize :: nat where
  "bucketSize = 16"

definition lookupRequestLimit :: int where
  "lookupRequestLimit = 3"

text \<open>Modelled from the spec: \<open>nodesByDistance\<close> and its \<open>push\<close> are declared outside
  the files at hand. The spec's bounded nearest-list is sorted ascending by log-distance
  to the target and capped at its capacity; insertion is idempotent on the ID, elements
  farther than the k-th are dropped, and ties are broken by insertion order.\<close>

record nodesByDistance =
  nbd_target :: ID
  entries :: "node list"

fun insert_by_dist :: "ID \<Rightarrow> node \<Rightarrow> node list \<Rightarrow> node list" where
  "insert_by_dist t n [] = [n]"
| "insert_by_dist t n (e # es) =
     (if LogDist (node_ID n) t < LogDist (node_ID e) t then n # e # es
      else e # insert_by_dist t n es)"

definition push :: "nodesByDistance \<Rightarrow> node \<Rightarrow> nat \<Rightarrow> nodesByDistance" where
  "push h n maxElems =
     (if node_ID n \<in> node_ID ` set (entries h) then h
      else h\<lparr>entries := take maxElems (insert_by_dist (nbd_target h) n (entries h))\<rparr>)"

text \<open>Modelled from the spec: \<open>Table.findnodeByID\<close> gives the bounded nearest-list, of
  size at most \<open>k\<close>, of the table's nodes.\<close>

definition findnodeByID :: "table \<Rightarrow> ID \<Rightarrow> nat \<Rightarrow> bool \<Rightarrow> nodesByDistance" where
  "findnodeByID t tg k live_only =
     foldl (\<lambda>h n. push h n k) \<lparr>nbd_target = tg, entries = []\<rparr> (tab_nodes t)"

text \<open>\<open>asked\<close> is a map that is nil (\<open>None\<close>) until \<open>init\<close> makes it; reading a nil map
  finds nothing, writing to it panics.\<close>

record lookupRoute =
  l_target :: target
  l_list :: nodesByDistance
  l_asked :: "ID set option"

text \<open>The ID of a v4 public key (\<open>target.ID()\<close>, a hash computed outside the files at
  hand) is passed along with the key.\<close>

definition newLookupRouteV4 :: "nat list \<Rightarrow> ID \<Rightarrow> lookupRoute" where
  "newLookupRouteV4 pubkey pubkey_id =
     \<lparr>l_target = TargetPubkey pubkey,
      l_list = \<lparr>nbd_target = pubkey_id, entries = []\<rparr>, l_asked = None\<rparr>"

definition newLookupRouteV5 :: "ID \<Rightarrow> lookupRoute" where
  "newLookupRouteV5 tg =
     \<lparr>l_target = TargetID tg, l_list = \<lparr>nbd_target = tg, entries = []\<rparr>, l_asked = None\<rparr>"

definition lookupRoute_init :: "table \<Rightarrow> lookupRoute \<Rightarrow> bool \<times> lookupRoute" where
  "lookupRoute_init t l =
     (let closest = findnodeByID t (nbd_target (l_list l)) bucketSize False
      in if length (entries closest) = 0 then (False, l)
         else (True, l\<lparr>l_asked := Some {},
                        l_list := (l_list l)\<lparr>entries := entries closest\<rparr>\<rparr>))"

fun first_unasked :: "ID set \<Rightarrow> node list \<Rightarrow> node option" where
  "first_unasked asked [] = None"
| "first_unasked asked (n # ns) =
     (if node_ID n \<notin> asked then Some n else first_unasked asked ns)"

definition lookupRoute_nextHop :: "lookupRoute \<Rightarrow> ((node option \<times> target) \<times> lookupRoute) option" where
  "lookupRoute_nextHop l =
     (case first_unasked (case l_asked l of None \<Rightarrow> {} | Some a \<Rightarrow> a) (entries (l_list l)) of
        None \<Rightarrow> Some ((None, l_target l), l)
      | Some n \<Rightarrow>
          (case l_asked l of
             None \<Rightarrow> None
           | Some a \<Rightarrow> Some ((Some n, l_target l), l\<lparr>l_asked := Some (insert (node_ID n) a)\<rparr>)))"

definition lookupRoute_addFoundNodes :: "node list \<Rightarrow> lookupRoute \<Rightarrow> lookupRoute" where
  "lookupRoute_addFoundNodes ns l = l\<lparr>l_list := foldl (\<lambda>h n. push h n bucketSize) (l_list l) ns\<rparr>"

definition lookupRoute_result :: "lookupRoute \<Rightarrow> node list" where
  "lookupRoute_result l = entries (l_list l)"

definition lookupRoute_route :: "lookupRoute route" where
  "lookupRoute_route =
     \<lparr>r_init = (\<lambda>t l. Some (lookupRoute_init t l)),
      r_nextHop = lookupRoute_nextHop,
      r_addFoundNodes = (\<lambda>ns l. Some (lookupRoute_addFoundNodes ns l)),
      r_result = lookupRoute_result\<rparr>"

text \<open>\<open>lookupDistances\<close>: the conversion \<open>uint(x)\<close> of an \<open>int\<close>, and the loop, which
  has no bound of its own: \<open>None\<close> is a loop that does not end.\<close>

definition go_uint :: "int \<Rightarrow> nat" where
  "go_uint x = nat (x mod 2 ^ 64)"

partial_function (option) lookupDistances_loop :: "int \<Rightarrow> int \<Rightarrow> nat list \<Rightarrow> nat list option" where
  "lookupDistances_loop td i dists =
     (if int (length dists) < lookupRequestLimit then
        (let d1 = (if int64 (td + i) \<le> 256 then dists @ [go_uint (int64 (td + i))] else dists);
             d2 = (if int64 (td - i) > 0 then d1 @ [go_uint (int64 (td - i))] else d1)
         in lookupDistances_loop td (int64 (i + 1)) d2)
      else Some dists)"

definition lookupDistances :: "ID \<Rightarrow> ID \<Rightarrow> nat list option" where
  "lookupDistances tg dest =
     (let td = LogDist tg dest in lookupDistances_loop td 1 [go_uint td])"

text \<open>The sequence of the spec: \<open>[td, td+1, td-1, td+2, td-2, \<dots>]\<close> truncated to
  \<open>(0, 256]\<close> and capped at \<open>lookupRequestLimit\<close> entries.\<close>

definition dist_in_range :: "int \<Rightarrow> bool" where
  "dist_in_range d = (0 < d \<and> d \<le> 256)"

definition spec_neighbours :: "int \<Rightarrow> int list" where
  "spec_neighbours td = concat (map (\<lambda>i. [td + i, td - i]) [1..256])"

definition spec_lookupDistances :: "int \<Rightarrow> nat list" where
  "spec_lookupDistances td =
     map nat (take (nat lookupRequestLimit) (filter dist_in_range (td # spec_neighbours td)))"

subsection \<open>The random route\<close>

definition randomRouteBuffer :: nat where
  "randomRouteBuffer = 32"

text \<open>The buffer is a Go slice: its elements, and its capacity, \<open>None\<close> for the nil
  slice. Slicing \<open>buf[:n]\<close> beyond the capacity panics. \<open>append\<close> to a full slice moves
  to a larger array; the language leaves the new capacity to the runtime, which doubles
  small capacities (1 from nil), so that appending one by one from nil gives
  1, 2, 4, 8, 16, 32.\<close>

record randomRoute =
  rr_buf :: "node list"
  rr_cap :: "nat option"
  rr_rng :: rng

definition growslice :: "nat \<Rightarrow> nat \<Rightarrow> nat" where
  "growslice oldcap needed = max needed (2 * oldcap)"

definition append_cap :: "randomRoute \<Rightarrow> nat option" where
  \<comment> \<open>the capacity after \<open>append(r.buf, n)\<close>\<close>
  "append_cap r =
     (let c = (case rr_cap r of None \<Rightarrow> 0 | Some c \<Rightarrow> c)
      in if length (rr_buf r) < c then Some c
         else Some (growslice c (length (rr_buf r) + 1)))"

definition newRandomRoute :: "rng \<Rightarrow> randomRoute" where
  \<comment> \<open>\<open>randomRoute{rng: rng}\<close>, as in \<open>newRandomRouteV4\<close> and \<open>newRandomRouteV5\<close>\<close>
  "newRandomRoute g = \<lparr>rr_buf = [], rr_cap = None, rr_rng = g\<rparr>"

text \<open>\<open>init\<close> makes a buffer of capacity 32 if there is none, and panics (\<open>None\<close>) at
  \<open>r.buf[:randomRouteBuffer]\<close> if there is one of smaller capacity.\<close>

definition randomRoute_init :: "table \<Rightarrow> randomRoute \<Rightarrow> (bool \<times> randomRoute) option" where
  "randomRoute_init t r =
     (let c = (case rr_cap r of None \<Rightarrow> randomRouteBuffer | Some c \<Rightarrow> c)
      in if c < randomRouteBuffer then None
         else (let got = readRandomNodes t randomRouteBuffer
               in Some (length got > 0,
                        r\<lparr>rr_rng := tab_rand t, rr_cap := Some c, rr_buf := got\<rparr>)))"

definition nextNode :: "randomRoute \<Rightarrow> (node option \<times> randomRoute) option" where
  "nextNode r =
     (if length (rr_buf r) = 0 then Some (None, r)
      else case Intn (length (rr_buf r)) (rr_rng r) of
             None \<Rightarrow> None
           | Some (index, g) \<Rightarrow>
               Some (Some (rr_buf r ! index),
                     r\<lparr>rr_buf := take index (rr_buf r) @ drop (index + 1) (rr_buf r),
                       rr_rng := g\<rparr>))"

definition add :: "node \<Rightarrow> randomRoute \<Rightarrow> randomRoute option" where
  "add n r =
     (if length (rr_buf r) < randomRouteBuffer
      then Some (r\<lparr>rr_buf := rr_buf r @ [n], rr_cap := append_cap r\<rparr>)
      else case Intn (length (rr_buf r)) (rr_rng r) of
             None \<Rightarrow> None
           | Some (i, g) \<Rightarrow> Some (r\<lparr>rr_buf := (rr_buf r)[i := n], rr_rng := g\<rparr>))"

text \<open>The loop \<open>for i2 == i1 { i2 = r.rng.Intn(len(ns)) }\<close> draws until the index
  differs; it has no bound, so \<open>None\<close> is also a loop that does not end.\<close>

partial_function (option) draw_other :: "nat \<Rightarrow> nat \<Rightarrow> nat \<Rightarrow> rng \<Rightarrow> (nat \<times> rng) option" where
  "draw_other n i1 i2 g =
     (if i2 = i1 then
        (case Intn n g of None \<Rightarrow> None | Some (j, g') \<Rightarrow> draw_other n i1 j g')
      else Some (i2, g))"

definition addFoundNodes :: "node list \<Rightarrow> randomRoute \<Rightarrow> randomRoute option" where
  "addFoundNodes ns r =
     (if length ns = 0 then Some r
      else if length ns = 1 then add (ns ! 0) r
      else case Intn (length ns) (rr_rng r) of
             None \<Rightarrow> None
           | Some (i1, g1) \<Rightarrow>
               (case draw_other (length ns) i1 i1 g1 of
                  None \<Rightarrow> None
                | Some (i2, g2) \<Rightarrow>
                    (case add (ns ! i1) (r\<lparr>rr_rng := g2\<rparr>) of
                       None \<Rightarrow> None
                     | Some r1 \<Rightarrow> add (ns ! i2) r1)))"

definition randomRouteV4_nextHop :: "randomRoute \<Rightarrow> ((node option \<times> target) \<times> randomRoute) option" where
  "randomRouteV4_nextHop r =
     (case nextNode r of
        None \<Rightarrow> None
      | Some (None, r1) \<Rightarrow> Some ((None, TargetPubkey (replicate 64 0)), r1)
      | Some (Some n, r1) \<Rightarrow>
          (case Read 64 (rr_rng r1) of
             (bytes, g) \<Rightarrow> Some ((Some n, TargetPubkey bytes), r1\<lparr>rr_rng := g\<rparr>)))"

definition randomRouteV5_nextHop :: "randomRoute \<Rightarrow> ((node option \<times> target) \<times> randomRoute) option" where
  "randomRouteV5_nextHop r =
     (case nextNode r of
        None \<Rightarrow> None
      | Some (n, r1) \<Rightarrow> Some ((n, TargetDists [256, 255, 254, 253]), r1))"

definition randomRouteV4 :: "randomRoute route" where
  "randomRouteV4 =
     \<lparr>r_init = randomRoute_init,
      r_nextHop = randomRouteV4_nextHop,
      r_addFoundNodes = addFoundNodes,
      r_result = (\<lambda>r. [])\<rparr>"

definition randomRouteV5 :: "randomRoute route" where
  "randomRouteV5 =
     \<lparr>r_init = randomRoute_init,
      r_nextHop = randomRouteV5_nextHop,
      r_addFoundNodes = addFoundNodes,
      r_result = (\<lambda>r. [])\<rparr>"

subsection \<open>Invariant of the walk along a run\<close>

text \<open>The counter stays within \<open>[0, alpha]\<close>, it is zero until the route has been
  initialised, and it counts the queries in flight.\<close>

definition walk_ok :: "'r walk \<Rightarrow> bool" where
  "walk_ok w = (0 \<le> queries w \<and> queries w \<le> alpha \<and> (inited w \<or> queries w = 0))"

definition run_ok :: "'r run_state \<Rightarrow> bool" where
  "run_ok s = (walk_ok (the_walk s) \<and> queries (the_walk s) = int (length (in_flight s)))"

subsection \<open>Inputs of the scenarios\<close>

definition tab0 :: table where
  "tab0 = \<lparr>tab_self = \<lparr>node_ID = 0, node_rec = 0\<rparr>, tab_nodes = [], tab_random = [],
            tab_rand = \<lparr>tape = (\<lambda>k. k), pos = 0\<rparr>, tab_tracked = []\<rparr>"

definition N1 :: node where "N1 = \<lparr>node_ID = push_bit 248 1, node_rec = 1\<rparr>"
definition N2 :: node where "N2 = \<lparr>node_ID = push_bit 248 2, node_rec = 2\<rparr>"
definition N3 :: node where "N3 = \<lparr>node_ID = push_bit 248 3, node_rec = 3\<rparr>"
definition N4 :: node where "N4 = \<lparr>node_ID = push_bit 248 4, node_rec = 4\<rparr>"

text \<open>A table that does not report the local node, neither among the nodes of its
  buckets nor among its random nodes.\<close>

definition hides_self :: "table \<Rightarrow> bool" where
  "hides_self t = list_all (\<lambda>n. node_ID n \<noteq> node_ID (self t)) (tab_nodes t @ tab_random t)"

text \<open>No node of a list carries the ID \<open>x\<close>.\<close>

definition avoids :: "ID \<Rightarrow> node list \<Rightarrow> bool" where
  "avoids x ns = list_all (\<lambda>n. node_ID n \<noteq> x) ns"

text \<open>Along a run over such a table: the nodes the route can still offer (its pool)
  and the hops issued so far avoid the local ID, the local ID is in \<open>seen\<close>, and the
  table keeps its local node and its nodes.\<close>

definition pool_ok :: "table \<Rightarrow> ('r \<Rightarrow> node list) \<Rightarrow> 'r run_state \<Rightarrow> bool" where
  "pool_ok t pool s =
     (avoids (node_ID (self t)) (pool (route (the_walk s)))
      \<and> avoids (node_ID (self t)) (hops s)
      \<and> node_ID (self t) \<in> seen (the_walk s)
      \<and> tab_self (tab (the_walk s)) = tab_self t
      \<and> tab_nodes (tab (the_walk s)) = tab_nodes t
      \<and> tab_random (tab (the_walk s)) = tab_random t)"

definition g0 :: rng where
  "g0 = \<lparr>tape = (\<lambda>k. k), pos = 0\<rparr>"

definition tab2 :: table where
  "tab2 = \<lparr>tab_self = \<lparr>node_ID = 0, node_rec = 0\<rparr>, tab_nodes = [N1],
            tab_random = [N1, N2], tab_rand = g0, tab_tracked = []\<rparr>"






text \<open>The query that \<open>advance\<close> emits for a hop of the fixed route.\<close>

definition emitted :: "node \<Rightarrow> query" where
  "emitted n = \<lparr>qtarget = TargetNil, qnode = n, qerr = None, qresp = []\<rparr>"

text \<open>Along a run, \<open>seen\<close> and the forwarded nodes are what one pass of the
  de-duplication loop over all handled response entries gives, from the local ID.\<close>

definition seen_ok :: "table \<Rightarrow> 'r run_state \<Rightarrow> bool" where
  "seen_ok t s = (seen (the_walk s) = fst (dedup {node_ID (self t)} [] (replied s))
                \<and> forwarded s = snd (dedup {node_ID (self t)} [] (replied s)))"

section \<open>Helper lemmas\<close>

subsection \<open>The steps of the walk\<close>

lemma int64_id: "- (2 ^ 63) \<le> x \<Longrightarrow> x < 2 ^ 63 \<Longrightarrow> int64 x = x"
  unfolding int64_def by (simp add: mod_pos_pos_trivial)

lemma advance_hop_Some:
  assumes "advance_hop rt w = Some ((Some q, d), w')" and "0 \<le> queries w" and "queries w \<le> alpha"
  shows "queries w < alpha \<and> queries w' = queries w + 1 \<and> \<not> d \<and> inited w' = inited w
         \<and> seen w' = seen w \<and> tab w' = tab w \<and> replyBuffer w' = replyBuffer w
         \<and> r_nextHop rt (route w) = Some ((Some (qnode q), qtarget q), route w')
         \<and> qerr q = None \<and> qresp q = []"
  using assms unfolding advance_hop_def alpha_def
  by (auto split: if_splits option.splits prod.splits simp: int64_id)

lemma advance_hop_None:
  assumes "advance_hop rt w = Some ((None, d), w')"
  shows "queries w' = queries w \<and> (d \<longrightarrow> queries w = 0) \<and> inited w' = inited w
         \<and> seen w' = seen w \<and> tab w' = tab w \<and> replyBuffer w' = replyBuffer w"
  using assms unfolding advance_hop_def
  by (auto split: if_splits option.splits prod.splits)

lemma advance_unfold:
  assumes "advance rt w = Some (out, w')"
  shows "(inited w \<and> advance_hop rt w = Some (out, w')) \<or>
         (\<not> inited w \<and> (\<exists>r'. r_init rt (tab w) (route w) = Some (False, r') \<and>
                               out = (None, True) \<and> w' = w\<lparr>route := r'\<rparr>)) \<or>
         (\<not> inited w \<and> (\<exists>r'. r_init rt (tab w) (route w) = Some (True, r') \<and>
                               advance_hop rt (w\<lparr>route := r', inited := True\<rparr>) = Some (out, w')))"
  using assms unfolding advance_def
  by (simp split: if_splits option.splits prod.splits)

lemma advance_Some:
  assumes "advance rt w = Some ((Some q, d), w')" and "walk_ok w"
  shows "queries w < alpha \<and> queries w' = queries w + 1 \<and> \<not> d \<and> inited w'
         \<and> seen w' = seen w \<and> tab w' = tab w \<and> replyBuffer w' = replyBuffer w"
proof -
  from assms(2) have r: "0 \<le> queries w" "queries w \<le> alpha"
    by (simp_all add: walk_ok_def)
  from advance_unfold[OF assms(1)] show ?thesis
  proof (elim disjE conjE exE)
    assume "inited w" "advance_hop rt w = Some ((Some q, d), w')"
    with advance_hop_Some[of rt w q d w'] r show ?thesis by simp
  next
    fix r' assume "(Some q, d) = (None, True)"
    then show ?thesis by simp
  next
    fix r' assume "advance_hop rt (w\<lparr>route := r', inited := True\<rparr>) = Some ((Some q, d), w')"
    with advance_hop_Some[of rt "w\<lparr>route := r', inited := True\<rparr>" q d w'] r show ?thesis by simp
  qed
qed

lemma advance_None:
  assumes "advance rt w = Some ((None, d), w')" and "walk_ok w"
  shows "queries w' = queries w \<and> (d \<longrightarrow> queries w = 0) \<and> (inited w \<longrightarrow> inited w')
         \<and> seen w' = seen w \<and> tab w' = tab w \<and> replyBuffer w' = replyBuffer w"
proof -
  from advance_unfold[OF assms(1)] show ?thesis
  proof (elim disjE conjE exE)
    assume "inited w" "advance_hop rt w = Some ((None, d), w')"
    with advance_hop_None[of rt w d w'] show ?thesis by simp
  next
    fix r' assume "\<not> inited w" "w' = w\<lparr>route := r'\<rparr>"
    with assms(2) show ?thesis by (simp add: walk_ok_def)
  next
    fix r' assume "advance_hop rt (w\<lparr>route := r', inited := True\<rparr>) = Some ((None, d), w')"
    with advance_hop_None[of rt "w\<lparr>route := r', inited := True\<rparr>" d w'] show ?thesis by simp
  qed
qed

lemma handleResponse_fields:
  assumes "handleResponse rt w q = Some w'"
  shows "queries w' = int64 (queries w - 1)"
    and "inited w' = inited w"
    and "seen w' = fst (dedup (seen w) [] (qresp q))"
    and "replyBuffer w' = snd (dedup (seen w) [] (qresp q))"
    and "r_addFoundNodes rt (replyBuffer w') (route w) = Some (route w')"
    and "tab w' = trackRequest (tab w) (qnode q) (length (qresp q) > 0) (replyBuffer w')"
  using assms unfolding handleResponse_def
  by (auto split: option.splits prod.splits)

lemma step_Advance_Some:
  assumes "step rt s Advance = Some s'"
  shows "\<exists>q d w'. advance rt (the_walk s) = Some ((q, d), w') \<and>
           s' = s\<lparr>the_walk := w',
                   in_flight := (case q of None \<Rightarrow> in_flight s | Some qq \<Rightarrow> in_flight s @ [qq]),
                   hops := (case q of None \<Rightarrow> hops s | Some qq \<Rightarrow> hops s @ [qnode qq]),
                   outs := outs s @ [(q, d)]\<rparr>"
  using assms by (auto split: option.splits prod.splits)

lemma step_Handle_Some:
  assumes "step rt s (Handle i er rs) = Some s'"
  shows "i < length (in_flight s) \<and>
         (\<exists>w'. handleResponse rt (the_walk s) ((in_flight s ! i)\<lparr>qerr := er, qresp := rs\<rparr>) = Some w' \<and>
           s' = s\<lparr>the_walk := w',
                   in_flight := take i (in_flight s) @ drop (Suc i) (in_flight s),
                   forwarded := forwarded s @ replyBuffer w',
                   replied := replied s @ rs\<rparr>)"
  using assms by (auto split: option.splits if_splits)


lemma step_run_ok:
  assumes "step rt s e = Some s'" and "run_ok s"
  shows "run_ok s'"
proof (cases e)
  case Advance
  with assms(1) obtain q d w' where a: "advance rt (the_walk s) = Some ((q, d), w')"
    and s': "s' = s\<lparr>the_walk := w',
                   in_flight := (case q of None \<Rightarrow> in_flight s | Some qq \<Rightarrow> in_flight s @ [qq]),
                   hops := (case q of None \<Rightarrow> hops s | Some qq \<Rightarrow> hops s @ [qnode qq]),
                   outs := outs s @ [(q, d)]\<rparr>"
    using step_Advance_Some by blast
  from assms(2) have ok: "walk_ok (the_walk s)" and len: "queries (the_walk s) = int (length (in_flight s))"
    by (simp_all add: run_ok_def)
  show ?thesis
  proof (cases q)
    case None
    with a ok have "queries w' = queries (the_walk s) \<and> (inited (the_walk s) \<longrightarrow> inited w')"
      using advance_None by blast
    with ok len s' None show ?thesis
      by (auto simp: run_ok_def walk_ok_def)
  next
    case (Some qq)
    with a ok have "queries (the_walk s) < alpha \<and> queries w' = queries (the_walk s) + 1 \<and> inited w'"
      using advance_Some by blast
    with ok len s' Some show ?thesis
      by (auto simp: run_ok_def walk_ok_def)
  qed
next
  case (Handle i er rs)
  with assms(1) obtain w' where i: "i < length (in_flight s)"
    and h: "handleResponse rt (the_walk s) ((in_flight s ! i)\<lparr>qerr := er, qresp := rs\<rparr>) = Some w'"
    and s': "s' = s\<lparr>the_walk := w',
                   in_flight := take i (in_flight s) @ drop (Suc i) (in_flight s),
                   forwarded := forwarded s @ replyBuffer w',
                   replied := replied s @ rs\<rparr>"
    using step_Handle_Some by blast
  from assms(2) have ok: "walk_ok (the_walk s)" and len: "queries (the_walk s) = int (length (in_flight s))"
    by (simp_all add: run_ok_def)
  from i len have pos: "1 \<le> queries (the_walk s)" by simp
  have "queries w' = int64 (queries (the_walk s) - 1)" and in': "inited w' = inited (the_walk s)"
    using handleResponse_fields(1,2)[OF h] by simp_all
  with pos ok have q': "queries w' = queries (the_walk s) - 1"
    by (simp add: int64_id walk_ok_def alpha_def)
  from pos ok have "inited (the_walk s)" by (auto simp: walk_ok_def)
  with q' in' pos ok len i s' show ?thesis
    by (auto simp: run_ok_def walk_ok_def)
qed

lemma run_run_ok: "run rt s evs = Some s' \<Longrightarrow> run_ok s \<Longrightarrow> run_ok s'"
  by (induction evs arbitrary: s) (auto split: option.splits dest: step_run_ok)

lemma start_run_ok: "run_ok (start t r)"
  by (simp add: run_ok_def walk_ok_def start_def newWalk_def alpha_def)

subsection \<open>Unfolding rules for the scenarios\<close>

lemmas eval_simps = start_def newWalk_def advance_def advance_hop_def handleResponse_def
  fixedRoute_def alpha_def int64_def self_def trackRequest_def

lemmas input_simps = tab0_def N1_def N2_def N3_def N4_def

lemmas random_simps = randomRouteV4_def randomRouteV5_def randomRoute_init_def nextNode_def
  add_def addFoundNodes_def randomRouteV4_nextHop_def randomRouteV5_nextHop_def newRandomRoute_def
  readRandomNodes_def randomRouteBuffer_def Intn_def Read_def g0_def tab2_def
  append_cap_def growslice_def

lemmas lookup_simps = lookupRoute_route_def lookupRoute_init_def lookupRoute_nextHop_def
  lookupRoute_addFoundNodes_def lookupRoute_result_def findnodeByID_def push_def
  newLookupRouteV5_def newLookupRouteV4_def bucketSize_def


subsection \<open>The de-duplication loop\<close>

lemma dedup_acc: "dedup sn buf rs = (fst (dedup sn [] rs), buf @ snd (dedup sn [] rs))"
proof (induction rs arbitrary: sn buf)
  case Nil
  show ?case by simp
next
  case (Cons r rs)
  show ?case
  proof (cases r)
    case None
    with Cons[of sn buf] show ?thesis by simp
  next
    case (Some n)
    show ?thesis
    proof (cases "node_ID n \<in> sn")
      case True
      with Some Cons[of sn buf] show ?thesis by simp
    next
      case False
      let ?sn = "insert (node_ID n) sn"
      have a: "dedup ?sn (buf @ [n]) rs = (fst (dedup ?sn [] rs), (buf @ [n]) @ snd (dedup ?sn [] rs))"
        by (rule Cons)
      have b: "dedup ?sn [n] rs = (fst (dedup ?sn [] rs), [n] @ snd (dedup ?sn [] rs))"
        by (rule Cons)
      from Some False have "dedup sn buf (r # rs) = dedup ?sn (buf @ [n]) rs"
        and "dedup sn [] (r # rs) = dedup ?sn [n] rs"
        by simp_all
      with a b show ?thesis by simp
    qed
  qed
qed

lemma dedup_fst: "fst (dedup sn buf rs) = sn \<union> node_ID ` {n. Some n \<in> set rs}"
proof (induction sn buf rs rule: dedup.induct)
  case (3 sn buf n ns)
  then show ?case by (cases "node_ID n \<in> sn") auto
qed auto

lemma dedup_snd_props:
  "distinct (map node_ID (snd (dedup sn [] rs)))
   \<and> node_ID ` set (snd (dedup sn [] rs)) \<inter> sn = {}
   \<and> set (snd (dedup sn [] rs)) \<subseteq> {n. Some n \<in> set rs}"
proof (induction rs arbitrary: sn)
  case Nil
  show ?case by simp
next
  case (Cons r rs)
  show ?case
  proof (cases r)
    case None
    with Cons[of sn] show ?thesis by auto
  next
    case (Some n)
    show ?thesis
    proof (cases "node_ID n \<in> sn")
      case True
      with Some Cons[of sn] show ?thesis by auto
    next
      case False
      let ?sn = "insert (node_ID n) sn"
      from Some False have e: "snd (dedup sn [] (r # rs)) = n # snd (dedup ?sn [] rs)"
        using dedup_acc[of ?sn "[n]" rs] by simp
      from Cons[of ?sn] Some False show ?thesis
        unfolding e by auto
    qed
  qed
qed

lemma dedup_append:
  "dedup sn buf (rs1 @ rs2) = dedup (fst (dedup sn buf rs1)) (snd (dedup sn buf rs1)) rs2"
  by (induction sn buf rs1 rule: dedup.induct) simp_all

lemma advance_keeps:
  assumes "advance rt w = Some (out, w')"
  shows "seen w' = seen w \<and> tab w' = tab w \<and> replyBuffer w' = replyBuffer w"
proof -
  have h: "seen w2 = seen w1 \<and> tab w2 = tab w1 \<and> replyBuffer w2 = replyBuffer w1"
    if "advance_hop rt w1 = Some (out, w2)" for w1 w2
    using that unfolding advance_hop_def
    by (auto split: if_splits option.splits prod.splits)
  from advance_unfold[OF assms] show ?thesis
  proof (elim disjE conjE exE)
    assume "advance_hop rt w = Some (out, w')"
    then show ?thesis by (rule h)
  next
    fix r' assume "w' = w\<lparr>route := r'\<rparr>"
    then show ?thesis by simp
  next
    fix r' assume "advance_hop rt (w\<lparr>route := r', inited := True\<rparr>) = Some (out, w')"
    from h[OF this] show ?thesis by simp
  qed
qed

lemma step_seen_ok:
  assumes "step rt s e = Some s'" and "seen_ok t s"
  shows "seen_ok t s'"
proof (cases e)
  case Advance
  with assms(1) obtain q d w' where a: "advance rt (the_walk s) = Some ((q, d), w')"
    and s': "s' = s\<lparr>the_walk := w',
                   in_flight := (case q of None \<Rightarrow> in_flight s | Some qq \<Rightarrow> in_flight s @ [qq]),
                   hops := (case q of None \<Rightarrow> hops s | Some qq \<Rightarrow> hops s @ [qnode qq]),
                   outs := outs s @ [(q, d)]\<rparr>"
    using step_Advance_Some by blast
  from advance_keeps[OF a] s' assms(2) show ?thesis
    by (simp add: seen_ok_def)
next
  case (Handle i er rs)
  with assms(1) obtain w' where
    h: "handleResponse rt (the_walk s) ((in_flight s ! i)\<lparr>qerr := er, qresp := rs\<rparr>) = Some w'"
    and s': "s' = s\<lparr>the_walk := w',
                   in_flight := take i (in_flight s) @ drop (Suc i) (in_flight s),
                   forwarded := forwarded s @ replyBuffer w',
                   replied := replied s @ rs\<rparr>"
    using step_Handle_Some by blast
  let ?s0 = "{node_ID (self t)}"
  have sn: "seen w' = fst (dedup (seen (the_walk s)) [] rs)"
    and rb: "replyBuffer w' = snd (dedup (seen (the_walk s)) [] rs)"
    using handleResponse_fields(3,4)[OF h] by simp_all
  have "dedup ?s0 [] (replied s @ rs) = dedup (seen (the_walk s)) (forwarded s) rs"
    using assms(2) by (simp add: dedup_append seen_ok_def)
  also have "\<dots> = (seen w', forwarded s @ replyBuffer w')"
    using dedup_acc[of "seen (the_walk s)" "forwarded s" rs] sn rb by simp
  finally show ?thesis using s' by (simp add: seen_ok_def)
qed

lemma run_seen_ok: "run rt s evs = Some s' \<Longrightarrow> seen_ok t s \<Longrightarrow> seen_ok t s'"
  by (induction evs arbitrary: s) (auto split: option.splits dest: step_seen_ok)

lemma start_seen_ok: "seen_ok t (start t r)"
  by (simp add: seen_ok_def start_def newWalk_def)

subsection \<open>Log-distance and the loop of lookupDistances\<close>

lemma leading_zeros_le: "leading_zeros n w \<le> n"
  by (induction n) auto

lemma leading_zeros_full: "leading_zeros n w = n \<Longrightarrow> i < n \<Longrightarrow> \<not> bit w i"
proof (induction n)
  case 0
  then show ?case by simp
next
  case (Suc n)
  from Suc.prems(1) have a: "\<not> bit w n" and b: "leading_zeros n w = n"
    by (auto split: if_splits)
  show ?case
  proof (cases "i = n")
    case True
    with a show ?thesis by simp
  next
    case False
    with Suc.prems(2) have "i < n" by simp
    with Suc.IH[OF b] show ?thesis by simp
  qed
qed

lemma leading_zeros_nonzero:
  fixes w :: ID
  assumes "w \<noteq> 0"
  shows "leading_zeros 256 w < 256"
proof (rule ccontr)
  assume "\<not> leading_zeros 256 w < 256"
  with leading_zeros_le[of 256 w] have e: "leading_zeros 256 w = 256" by simp
  have "\<not> bit w i" for i
  proof (cases "i < 256")
    case True
    with leading_zeros_full[OF e] show ?thesis by simp
  next
    case False
    then show ?thesis using bit_imp_le_length[of w i] by auto
  qed
  then have "w = 0" by (simp add: bit_eq_iff)
  with assms show False by simp
qed

lemma xor_zero_iff: "(a XOR b = 0) = (a = b)" for a b :: ID
proof
  assume z: "a XOR b = 0"
  show "a = b"
  proof (rule bit_eqI)
    fix n
    from z have "bit (a XOR b) n = bit (0 :: ID) n" by simp
    then show "bit a n = bit b n" by (simp add: bit_xor_iff)
  qed
next
  assume "a = b"
  then show "a XOR b = 0" by simp
qed

lemma LogDist_range: "0 \<le> LogDist a b \<and> LogDist a b \<le> 256 \<and> (a \<noteq> b \<longrightarrow> 1 \<le> LogDist a b)
   \<and> (a = b \<longrightarrow> LogDist a b = 0)"
proof (cases "a = b")
  case True
  then show ?thesis by (simp add: LogDist_def)
next
  case False
  then have "a XOR b \<noteq> 0" by (simp add: xor_zero_iff)
  from leading_zeros_nonzero[OF this] False show ?thesis
    by (simp add: LogDist_def)
qed

lemma go_uint_id: "0 \<le> x \<Longrightarrow> x < 2 ^ 64 \<Longrightarrow> go_uint x = nat x"
  by (simp add: go_uint_def)

lemma loop_done: "length dists = 3 \<Longrightarrow> lookupDistances_loop td i dists = Some dists"
  by (subst lookupDistances_loop.simps) (simp add: lookupRequestLimit_def)

lemma loop_mid:
  assumes "2 \<le> td" and "td \<le> 255"
  shows "lookupDistances_loop td 1 [go_uint td] = Some [nat td, nat (td + 1), nat (td - 1)]"
  using assms
  by (subst lookupDistances_loop.simps)
     (simp add: lookupRequestLimit_def int64_id go_uint_id loop_done)

lemma loop_0: "lookupDistances_loop 0 1 [go_uint 0] = Some [0, 1, 2]"
  apply (subst lookupDistances_loop.simps)
  apply (simp add: lookupRequestLimit_def int64_id go_uint_id)
  apply (subst lookupDistances_loop.simps)
  apply (simp add: lookupRequestLimit_def int64_id go_uint_id loop_done)
  done

lemma loop_1: "lookupDistances_loop 1 1 [go_uint 1] = Some [1, 2, 3]"
  apply (subst lookupDistances_loop.simps)
  apply (simp add: lookupRequestLimit_def int64_id go_uint_id)
  apply (subst lookupDistances_loop.simps)
  apply (simp add: lookupRequestLimit_def int64_id go_uint_id loop_done)
  done

lemma loop_256: "lookupDistances_loop 256 1 [go_uint 256] = Some [256, 255, 254]"
  apply (subst lookupDistances_loop.simps)
  apply (simp add: lookupRequestLimit_def int64_id go_uint_id)
  apply (subst lookupDistances_loop.simps)
  apply (simp add: lookupRequestLimit_def int64_id go_uint_id loop_done)
  done

lemma spec_neighbours_unfold:
  "\<exists>rest. spec_neighbours td = [td + 1, td - 1, td + 2, td - 2] @ rest"
proof -
  have "[1..256::int] = 1 # [1 + 1..256]"
    by (rule upto_rec1) simp
  moreover have "[1 + 1..256::int] = (1 + 1) # [1 + 1 + 1..256]"
    by (rule upto_rec1) simp
  ultimately have u: "[1..256::int] = 1 # (1 + 1) # [1 + 1 + 1..256]"
    by (simp only:)
  have "spec_neighbours td =
          [td + 1, td - 1, td + (1 + 1), td - (1 + 1)]
          @ concat (map (\<lambda>i. [td + i, td - i]) [1 + 1 + 1..256])"
    unfolding spec_neighbours_def u
    by (simp only: list.map concat.simps append.simps)
  then have "spec_neighbours td =
          [td + 1, td - 1, td + 2, td - 2]
          @ concat (map (\<lambda>i. [td + i, td - i]) [1 + 1 + 1..256])"
    by (simp only: one_add_one)
  then show ?thesis by (rule exI)
qed

lemma LogDist_example: "LogDist 0 (2 ^ 254) = 255 \<and> (0 :: ID) \<noteq> 2 ^ 254"
proof -
  have a: "\<not> bit (2 ^ 254 :: ID) (Suc 254)"
    by (subst bit_exp_iff) simp
  have b: "bit (2 ^ 254 :: ID) 254"
    by (subst bit_exp_iff) simp
  have "leading_zeros (Suc (Suc 254)) (2 ^ 254) = Suc 0"
    by (simp only: leading_zeros.simps a b if_True if_False)
  moreover have "(256 :: nat) = Suc (Suc 254)" by simp
  ultimately have l: "leading_zeros 256 (2 ^ 254) = 1" by (simp only: One_nat_def)
  from b have n: "(0 :: ID) \<noteq> 2 ^ 254" by auto
  have "(0 :: ID) XOR 2 ^ 254 = 2 ^ 254" by (rule xor.left_neutral)
  with l n show ?thesis by (simp only: LogDist_def if_False) simp
qed

subsection \<open>The random route\<close>

lemma Intn_Some:
  assumes "0 < n"
  shows "Intn n g = Some (tape g (pos g) mod n, g\<lparr>pos := Suc (pos g)\<rparr>)"
  using assms by (simp add: Intn_def)

lemma Intn_less: "Intn n g = Some (i, g') \<Longrightarrow> i < n \<and> tape g' = tape g \<and> pos g' = Suc (pos g)"
  by (auto simp: Intn_def split: if_splits)

lemma draw_other_sound:
  assumes "draw_other n i1 i2 g = Some y"
  shows "fst y \<noteq> i1 \<and> (fst y = i2 \<or> fst y < n) \<and> tape (snd y) = tape g \<and> pos g \<le> pos (snd y)"
  using assms
proof (induction rule: draw_other.raw_induct[rotated 1, consumes 1, case_names step])
  case (step draw n i1 i2 g y)
  show ?case
  proof (cases "i2 = i1")
    case False
    with step(2) show ?thesis by auto
  next
    case True
    with step(2) obtain j g' where i: "Intn n g = Some (j, g')" and d: "draw n i1 j g' = Some y"
      by (cases "Intn n g") auto
    from Intn_less[OF i] step(1)[OF d] show ?thesis by auto
  qed
qed


lemma nextNode_empty: "rr_buf r = [] \<Longrightarrow> nextNode r = Some (None, r)"
  by (simp add: nextNode_def)

lemma nextNode_nonempty:
  assumes "rr_buf r \<noteq> []"
  shows "\<exists>i r'. i < length (rr_buf r) \<and> nextNode r = Some (Some (rr_buf r ! i), r')
           \<and> rr_buf r' = take i (rr_buf r) @ drop (Suc i) (rr_buf r)
           \<and> Suc (length (rr_buf r')) = length (rr_buf r)"
proof -
  let ?n = "length (rr_buf r)"
  let ?i = "tape (rr_rng r) (pos (rr_rng r)) mod ?n"
  from assms have n: "0 < ?n" by simp
  then have i: "?i < ?n" by simp
  let ?r = "r\<lparr>rr_buf := take ?i (rr_buf r) @ drop (?i + 1) (rr_buf r),
               rr_rng := (rr_rng r)\<lparr>pos := Suc (pos (rr_rng r))\<rparr>\<rparr>"
  have "nextNode r = Some (Some (rr_buf r ! ?i), ?r)"
    using n by (simp add: nextNode_def Intn_Some)
  moreover have "rr_buf ?r = take ?i (rr_buf r) @ drop (Suc ?i) (rr_buf r)" by simp
  moreover from i have "Suc (length (rr_buf ?r)) = ?n" by (simp add: min_def)
  ultimately show ?thesis using i by blast
qed




lemma addFoundNodes_two:
  assumes "2 \<le> length ns" and "addFoundNodes ns r = Some r'"
  shows "\<exists>i1 i2 g r1. i1 < length ns \<and> i2 < length ns \<and> i1 \<noteq> i2
           \<and> add (ns ! i1) (r\<lparr>rr_rng := g\<rparr>) = Some r1 \<and> add (ns ! i2) r1 = Some r'"
proof -
  from assms obtain i1 g1 i2 g2 r1 where
    a: "Intn (length ns) (rr_rng r) = Some (i1, g1)"
    and b: "draw_other (length ns) i1 i1 g1 = Some (i2, g2)"
    and c: "add (ns ! i1) (r\<lparr>rr_rng := g2\<rparr>) = Some r1"
    and d: "add (ns ! i2) r1 = Some r'"
    by (auto simp: addFoundNodes_def split: if_splits option.splits)
  from Intn_less[OF a] have "i1 < length ns" by simp
  moreover from draw_other_sound[OF b] have "i2 \<noteq> i1" "i2 < length ns" using calculation by auto
  ultimately show ?thesis using c d by blast
qed




lemma randomRoute_init_Some:
  assumes "randomRoute_init t r = Some (ok, r')"
  shows "ok = (rr_buf r' \<noteq> []) \<and> length (rr_buf r') \<le> randomRouteBuffer
         \<and> rr_buf r' = take randomRouteBuffer (tab_random t)
         \<and> (\<exists>c. rr_cap r' = Some c \<and> randomRouteBuffer \<le> c)"
  using assms
  by (auto simp: randomRoute_init_def readRandomNodes_def Let_def split: if_splits option.splits)





lemma nextNode_bound:
  assumes "nextNode r = Some (x, r')"
  shows "length (rr_buf r') \<le> length (rr_buf r) \<and> set (rr_buf r') \<subseteq> set (rr_buf r)
         \<and> (case x of None \<Rightarrow> True | Some n \<Rightarrow> n \<in> set (rr_buf r))"
proof (cases "rr_buf r = []")
  case True
  with assms nextNode_empty[OF True] show ?thesis by simp
next
  case False
  from nextNode_nonempty[OF False] assms obtain i where i: "i < length (rr_buf r)"
    and x: "x = Some (rr_buf r ! i)"
    and b: "rr_buf r' = take i (rr_buf r) @ drop (Suc i) (rr_buf r)"
    by auto
  from b have "set (rr_buf r') \<subseteq> set (rr_buf r)"
    using set_take_subset[of i "rr_buf r"] set_drop_subset[of "Suc i" "rr_buf r"] by auto
  moreover from b i have "length (rr_buf r') \<le> length (rr_buf r)" by simp
  ultimately show ?thesis using x i by simp
qed

subsection \<open>Routes that only offer nodes they were given\<close>

lemma avoids_set: "avoids x ns = (\<forall>n \<in> set ns. node_ID n \<noteq> x)"
  by (simp add: avoids_def list_all_iff)

lemma set_insert_by_dist: "set (insert_by_dist t n es) = insert n (set es)"
  by (induction es) auto

lemma set_push: "set (entries (push h n k)) \<subseteq> insert n (set (entries h))"
  using set_take_subset[of k "insert_by_dist (nbd_target h) n (entries h)"]
  by (auto simp: push_def set_insert_by_dist)

lemma set_foldl_push:
  "set (entries (foldl (\<lambda>h n. push h n k) h ns)) \<subseteq> set (entries h) \<union> set ns"
proof (induction ns arbitrary: h)
  case Nil
  show ?case by simp
next
  case (Cons n ns)
  from Cons[of "push h n k"] set_push[of h n k] show ?case by auto
qed

lemma first_unasked_mem: "first_unasked a ns = Some n \<Longrightarrow> n \<in> set ns"
  by (induction ns) (auto split: if_splits)

lemma add_set:
  assumes "add n r = Some r'"
  shows "set (rr_buf r') \<subseteq> insert n (set (rr_buf r))"
proof (cases "length (rr_buf r) < randomRouteBuffer")
  case True
  with assms show ?thesis by (auto simp: add_def)
next
  case False
  with assms obtain i where "rr_buf r' = (rr_buf r)[i := n]"
    by (auto simp: add_def split: option.splits)
  then show ?thesis
    using set_update_subset_insert[of "rr_buf r" i n] by simp
qed

lemma addFoundNodes_set:
  assumes "addFoundNodes ns r = Some r'"
  shows "set (rr_buf r') \<subseteq> set ns \<union> set (rr_buf r)"
proof -
  consider (z) "length ns = 0" | (one) "length ns = 1" | (two) "2 \<le> length ns"
    by linarith
  then show ?thesis
  proof cases
    case z
    with assms show ?thesis by (simp add: addFoundNodes_def)
  next
    case one
    with assms have a: "add (ns ! 0) r = Some r'" by (simp add: addFoundNodes_def)
    from one have "ns ! 0 \<in> set ns" by (simp add: nth_mem)
    with add_set[OF a] show ?thesis by auto
  next
    case two
    from addFoundNodes_two[OF two assms] obtain i1 i2 g r1 where
      i: "i1 < length ns" "i2 < length ns"
      and c: "add (ns ! i1) (r\<lparr>rr_rng := g\<rparr>) = Some r1" and d: "add (ns ! i2) r1 = Some r'"
      by blast
    from add_set[OF c] have s1: "set (rr_buf r1) \<subseteq> insert (ns ! i1) (set (rr_buf r))" by simp
    from add_set[OF d] have "set (rr_buf r') \<subseteq> insert (ns ! i2) (set (rr_buf r1))" .
    with s1 i show ?thesis using nth_mem by fastforce
  qed
qed

lemma advance_hop_route:
  assumes "advance_hop rt w = Some ((q, d), w')"
  shows "(q = None \<and> route w' = route w)
       \<or> (\<exists>tg. r_nextHop rt (route w) = Some ((map_option qnode q, tg), route w'))"
  using assms unfolding advance_hop_def
  by (auto split: if_splits option.splits prod.splits)

lemma hides_self_set:
  "hides_self t = (\<forall>n \<in> set (tab_nodes t) \<union> set (tab_random t). node_ID n \<noteq> node_ID (self t))"
  by (auto simp: hides_self_def list_all_iff)

lemma step_pool_ok:
  assumes init: "\<And>t' r ok r'. r_init rt t' r = Some (ok, r') \<Longrightarrow>
                   tab_nodes t' = tab_nodes t \<Longrightarrow> tab_random t' = tab_random t \<Longrightarrow>
                   set (pool r') \<subseteq> set (pool r) \<union> set (tab_nodes t) \<union> set (tab_random t)"
    and hop: "\<And>r n tg r'. r_nextHop rt r = Some ((n, tg), r') \<Longrightarrow>
                   set (pool r') \<subseteq> set (pool r) \<and> (\<forall>nd. n = Some nd \<longrightarrow> nd \<in> set (pool r))"
    and found: "\<And>ns r r'. r_addFoundNodes rt ns r = Some r' \<Longrightarrow>
                   set (pool r') \<subseteq> set (pool r) \<union> set ns"
    and hs: "hides_self t"
    and st: "step rt s e = Some s'"
    and ok: "pool_ok t pool s"
  shows "pool_ok t pool s'"
proof (cases e)
  case Advance
  let ?x = "node_ID (self t)"
  let ?w = "the_walk s"
  from Advance st obtain q d w' where a: "advance rt ?w = Some ((q, d), w')"
    and s': "s' = s\<lparr>the_walk := w',
                   in_flight := (case q of None \<Rightarrow> in_flight s | Some qq \<Rightarrow> in_flight s @ [qq]),
                   hops := (case q of None \<Rightarrow> hops s | Some qq \<Rightarrow> hops s @ [qnode qq]),
                   outs := outs s @ [(q, d)]\<rparr>"
    using step_Advance_Some by blast
  from ok have p: "avoids ?x (pool (route ?w))" and h: "avoids ?x (hops s)"
    and sn: "?x \<in> seen ?w" and tb: "tab_self (tab ?w) = tab_self t"
      "tab_nodes (tab ?w) = tab_nodes t" "tab_random (tab ?w) = tab_random t"
    by (simp_all add: pool_ok_def)
  from advance_keeps[OF a] have k: "seen w' = seen ?w" "tab w' = tab ?w" by simp_all
  have hopstep: "avoids ?x (pool (route w2)) \<and> (\<forall>qq. q = Some qq \<longrightarrow> node_ID (qnode qq) \<noteq> ?x)"
    if ah: "advance_hop rt w1 = Some ((q, d), w2)" and p1: "avoids ?x (pool (route w1))" for w1 w2
  proof -
    from advance_hop_route[OF ah] show ?thesis
    proof
      assume "q = None \<and> route w2 = route w1"
      with p1 show ?thesis by simp
    next
      assume "\<exists>tg. r_nextHop rt (route w1) = Some ((map_option qnode q, tg), route w2)"
      then obtain tg where "r_nextHop rt (route w1) = Some ((map_option qnode q, tg), route w2)" ..
      from hop[OF this] have "set (pool (route w2)) \<subseteq> set (pool (route w1))"
        and "\<forall>nd. map_option qnode q = Some nd \<longrightarrow> nd \<in> set (pool (route w1))"
        by simp_all
      with p1 show ?thesis by (auto simp: avoids_set)
    qed
  qed
  have res: "avoids ?x (pool (route w')) \<and> (\<forall>qq. q = Some qq \<longrightarrow> node_ID (qnode qq) \<noteq> ?x)"
    using advance_unfold[OF a]
  proof (elim disjE conjE exE)
    assume "advance_hop rt ?w = Some ((q, d), w')"
    from hopstep[OF this p] show ?thesis .
  next
    fix r' assume i: "r_init rt (tab ?w) (route ?w) = Some (False, r')"
      and o: "(q, d) = (None, True)" and w': "w' = ?w\<lparr>route := r'\<rparr>"
    from init[OF i tb(2) tb(3)] p hs have "avoids ?x (pool r')"
      by (auto simp: avoids_set hides_self_set)
    with o w' show ?thesis by simp
  next
    fix r' assume i: "r_init rt (tab ?w) (route ?w) = Some (True, r')"
      and ah: "advance_hop rt (?w\<lparr>route := r', inited := True\<rparr>) = Some ((q, d), w')"
    from init[OF i tb(2) tb(3)] p hs have "avoids ?x (pool r')"
      by (auto simp: avoids_set hides_self_set)
    then have "avoids ?x (pool (route (?w\<lparr>route := r', inited := True\<rparr>)))" by simp
    from hopstep[OF ah this] show ?thesis .
  qed
  show ?thesis
  proof (cases q)
    case None
    with res s' h sn tb k show ?thesis by (simp add: pool_ok_def)
  next
    case (Some qq)
    with res s' h sn tb k show ?thesis by (simp add: pool_ok_def avoids_def)
  qed
next
  case (Handle i er rs)
  let ?x = "node_ID (self t)"
  let ?w = "the_walk s"
  from Handle st obtain w' where
    hr: "handleResponse rt ?w ((in_flight s ! i)\<lparr>qerr := er, qresp := rs\<rparr>) = Some w'"
    and s': "s' = s\<lparr>the_walk := w',
                   in_flight := take i (in_flight s) @ drop (Suc i) (in_flight s),
                   forwarded := forwarded s @ replyBuffer w',
                   replied := replied s @ rs\<rparr>"
    using step_Handle_Some by blast
  from ok have p: "avoids ?x (pool (route ?w))" and h: "avoids ?x (hops s)"
    and sn: "?x \<in> seen ?w" and tb: "tab_self (tab ?w) = tab_self t"
      "tab_nodes (tab ?w) = tab_nodes t" "tab_random (tab ?w) = tab_random t"
    by (simp_all add: pool_ok_def)
  have rb: "replyBuffer w' = snd (dedup (seen ?w) [] rs)"
    using handleResponse_fields(4)[OF hr] by simp
  have sn': "seen w' = fst (dedup (seen ?w) [] rs)"
    using handleResponse_fields(3)[OF hr] by simp
  have tb': "tab w' = trackRequest (tab ?w) (qnode (in_flight s ! i)) (length rs > 0) (replyBuffer w')"
    using handleResponse_fields(6)[OF hr] by simp
  from dedup_snd_props[of "seen ?w" rs] rb sn have "avoids ?x (replyBuffer w')"
    by (auto simp: avoids_set)
  moreover from found[OF handleResponse_fields(5)[OF hr]]
  have "set (pool (route w')) \<subseteq> set (pool (route ?w)) \<union> set (replyBuffer w')" .
  ultimately have "avoids ?x (pool (route w'))" using p by (auto simp: avoids_set)
  moreover from sn sn' have "?x \<in> seen w'" by (simp add: dedup_fst)
  ultimately show ?thesis using s' h tb tb' by (simp add: pool_ok_def trackRequest_def)
qed

lemma run_pool_ok:
  assumes init: "\<And>t' r ok r'. r_init rt t' r = Some (ok, r') \<Longrightarrow>
                   tab_nodes t' = tab_nodes t \<Longrightarrow> tab_random t' = tab_random t \<Longrightarrow>
                   set (pool r') \<subseteq> set (pool r) \<union> set (tab_nodes t) \<union> set (tab_random t)"
    and hop: "\<And>r n tg r'. r_nextHop rt r = Some ((n, tg), r') \<Longrightarrow>
                   set (pool r') \<subseteq> set (pool r) \<and> (\<forall>nd. n = Some nd \<longrightarrow> nd \<in> set (pool r))"
    and found: "\<And>ns r r'. r_addFoundNodes rt ns r = Some r' \<Longrightarrow>
                   set (pool r') \<subseteq> set (pool r) \<union> set ns"
    and hs: "hides_self t"
  shows "run rt s evs = Some s' \<Longrightarrow> pool_ok t pool s \<Longrightarrow> pool_ok t pool s'"
proof (induction evs arbitrary: s)
  case Nil
  then show ?case by simp
next
  case (Cons e es)
  from Cons.prems(1) obtain s1 where st: "step rt s e = Some s1" and r: "run rt s1 es = Some s'"
    by (auto split: option.splits)
  from step_pool_ok[of rt t pool, OF init hop found hs st Cons.prems(2)]
  have "pool_ok t pool s1" .
  from Cons.IH[OF r this] show ?case .
qed

lemma start_pool_ok: "pool r = [] \<Longrightarrow> pool_ok t pool (start t r)"
  by (simp add: pool_ok_def start_def newWalk_def avoids_def)

lemma lookupRoute_pool:
  "r_init lookupRoute_route t' r = Some (ok, r') \<Longrightarrow>
     set (entries (l_list r')) \<subseteq> set (entries (l_list r)) \<union> set (tab_nodes t')"
  "r_nextHop lookupRoute_route r = Some ((n, tg), r') \<Longrightarrow>
     set (entries (l_list r')) \<subseteq> set (entries (l_list r))
     \<and> (\<forall>nd. n = Some nd \<longrightarrow> nd \<in> set (entries (l_list r)))"
  "r_addFoundNodes lookupRoute_route ns r = Some r' \<Longrightarrow>
     set (entries (l_list r')) \<subseteq> set (entries (l_list r)) \<union> set ns"
proof -
  assume "r_init lookupRoute_route t' r = Some (ok, r')"
  then have "set (entries (l_list r')) \<subseteq> set (entries (l_list r))
             \<or> entries (l_list r') = entries (findnodeByID t' (nbd_target (l_list r)) bucketSize False)"
    by (auto simp: lookupRoute_route_def lookupRoute_init_def Let_def split: if_splits)
  moreover have "set (entries (findnodeByID t' (nbd_target (l_list r)) bucketSize False)) \<subseteq> set (tab_nodes t')"
    using set_foldl_push[of bucketSize "\<lparr>nbd_target = nbd_target (l_list r), entries = []\<rparr>" "tab_nodes t'"]
    by (simp add: findnodeByID_def)
  ultimately show "set (entries (l_list r')) \<subseteq> set (entries (l_list r)) \<union> set (tab_nodes t')"
    by auto
next
  assume "r_nextHop lookupRoute_route r = Some ((n, tg), r')"
  then show "set (entries (l_list r')) \<subseteq> set (entries (l_list r))
     \<and> (\<forall>nd. n = Some nd \<longrightarrow> nd \<in> set (entries (l_list r)))"
    by (auto simp: lookupRoute_route_def lookupRoute_nextHop_def
             split: option.splits dest: first_unasked_mem)
next
  assume "r_addFoundNodes lookupRoute_route ns r = Some r'"
  then have "l_list r' = foldl (\<lambda>h n. push h n bucketSize) (l_list r) ns"
    by (auto simp: lookupRoute_route_def lookupRoute_addFoundNodes_def)
  then show "set (entries (l_list r')) \<subseteq> set (entries (l_list r)) \<union> set ns"
    using set_foldl_push[of bucketSize "l_list r" ns] by simp
qed

lemma randomRoute_init_pool:
  assumes "randomRoute_init t' r = Some (ok, r')"
  shows "set (rr_buf r') \<subseteq> set (rr_buf r) \<union> set (tab_random t')"
  using randomRoute_init_Some[OF assms] set_take_subset[of randomRouteBuffer "tab_random t'"]
  by auto

lemma randomRouteV4_hop:
  assumes "randomRouteV4_nextHop r = Some ((n, tg), r')"
  shows "set (rr_buf r') \<subseteq> set (rr_buf r) \<and> (\<forall>nd. n = Some nd \<longrightarrow> nd \<in> set (rr_buf r))"
proof -
  from assms obtain r1 where nn: "nextNode r = Some (n, r1)" and b: "rr_buf r' = rr_buf r1"
    by (auto simp: randomRouteV4_nextHop_def split: option.splits prod.splits)
  from nextNode_bound[OF nn] b show ?thesis by (auto split: option.splits)
qed

lemma randomRouteV5_hop:
  assumes "randomRouteV5_nextHop r = Some ((n, tg), r')"
  shows "set (rr_buf r') \<subseteq> set (rr_buf r) \<and> (\<forall>nd. n = Some nd \<longrightarrow> nd \<in> set (rr_buf r))"
proof -
  from assms have nn: "nextNode r = Some (n, r')"
    by (auto simp: randomRouteV5_nextHop_def split: option.splits prod.splits)
  from nextNode_bound[OF nn] show ?thesis by (auto split: option.splits)
qed

lemma lookup_hops_avoid_self:
  assumes "hides_self t" and "entries (l_list r0) = []"
    and "run lookupRoute_route (start t r0) evs = Some s"
  shows "avoids (node_ID (self t)) (hops s)"
proof -
  have "pool_ok t (\<lambda>l. entries (l_list l)) s"
  proof (rule run_pool_ok[where pool = "\<lambda>l. entries (l_list l)", OF _ _ _ assms(1) assms(3)])
    show "pool_ok t (\<lambda>l. entries (l_list l)) (start t r0)"
      using assms(2) by (rule start_pool_ok)
  next
    fix t' r ok r'
    assume "r_init lookupRoute_route t' r = Some (ok, r')" "tab_nodes t' = tab_nodes t"
    with lookupRoute_pool(1)[of t' r ok r']
    show "set (entries (l_list r')) \<subseteq> set (entries (l_list r)) \<union> set (tab_nodes t) \<union> set (tab_random t)"
      by auto
  next
    fix r n tg r'
    assume "r_nextHop lookupRoute_route r = Some ((n, tg), r')"
    then show "set (entries (l_list r')) \<subseteq> set (entries (l_list r))
       \<and> (\<forall>nd. n = Some nd \<longrightarrow> nd \<in> set (entries (l_list r)))"
      by (rule lookupRoute_pool(2))
  next
    fix ns r r'
    assume "r_addFoundNodes lookupRoute_route ns r = Some r'"
    then show "set (entries (l_list r')) \<subseteq> set (entries (l_list r)) \<union> set ns"
      by (rule lookupRoute_pool(3))
  qed
  then show ?thesis by (simp add: pool_ok_def)
qed

lemma random_hops_avoid_self:
  assumes "hides_self t" and "rr_buf r0 = []"
    and "rt = randomRouteV4 \<or> rt = randomRouteV5"
    and "run rt (start t r0) evs = Some s"
  shows "avoids (node_ID (self t)) (hops s)"
proof -
  have "pool_ok t rr_buf s"
  proof (rule run_pool_ok[where pool = rr_buf, OF _ _ _ assms(1) assms(4)])
    show "pool_ok t rr_buf (start t r0)"
      using assms(2) by (rule start_pool_ok)
  next
    fix t' r ok r'
    assume "r_init rt t' r = Some (ok, r')" "tab_random t' = tab_random t"
    with assms(3) randomRoute_init_pool[of t' r ok r']
    show "set (rr_buf r') \<subseteq> set (rr_buf r) \<union> set (tab_nodes t) \<union> set (tab_random t)"
      by (auto simp: randomRouteV4_def randomRouteV5_def)
  next
    fix r n tg r'
    assume "r_nextHop rt r = Some ((n, tg), r')"
    with assms(3) randomRouteV4_hop[of r n tg r'] randomRouteV5_hop[of r n tg r']
    show "set (rr_buf r') \<subseteq> set (rr_buf r) \<and> (\<forall>nd. n = Some nd \<longrightarrow> nd \<in> set (rr_buf r))"
      by (auto simp: randomRouteV4_def randomRouteV5_def)
  next
    fix ns r r'
    assume "r_addFoundNodes rt ns r = Some r'"
    with assms(3) have "addFoundNodes ns r = Some r'"
      by (auto simp: randomRouteV4_def randomRouteV5_def)
    from addFoundNodes_set[OF this] show "set (rr_buf r') \<subseteq> set (rr_buf r) \<union> set ns" by auto
  qed
  then show ?thesis by (simp add: pool_ok_def)
qed

lemma forwarded_avoid_self:
  assumes "run rt (start t r0) evs = Some s"
  shows "avoids (node_ID (self t)) (forwarded s)"
proof -
  have "seen_ok t s" by (rule run_seen_ok[OF assms start_seen_ok])
  then have "forwarded s = snd (dedup {node_ID (self t)} [] (replied s))"
    by (simp add: seen_ok_def)
  moreover from dedup_snd_props[of "{node_ID (self t)}" "replied s"]
  have "node_ID (self t) \<notin> node_ID ` set (snd (dedup {node_ID (self t)} [] (replied s)))"
    by blast
  ultimately have "node_ID (self t) \<notin> node_ID ` set (forwarded s)" by simp
  then show ?thesis by (force simp: avoids_set image_iff)
qed

section \<open>The counter of queries in flight\<close>

text \<open>
  Claim C1. In every state reached from a new walk by any interleaving of \<open>advance\<close>
  and \<open>handleResponse\<close> calls, each \<open>handleResponse\<close> handling a query that was emitted
  and not yet handled, the counter \<open>queries\<close> lies in \<open>[0, alpha]\<close> (and equals the number
  of queries in flight). There \<open>advance\<close> emits a query only when \<open>queries < alpha\<close> and
  then increments the counter by one, leaves the counter alone when it emits none, and
  \<open>handleResponse\<close> decrements it by exactly one.
\<close>

theorem queries_in_flight_bounded:
  assumes "run rt (start t r) evs = Some s"
  shows "0 \<le> queries (the_walk s) \<and> queries (the_walk s) \<le> alpha
       \<and> queries (the_walk s) = int (length (in_flight s))
       \<and> (\<forall>q d w'. advance rt (the_walk s) = Some ((Some q, d), w') \<longrightarrow>
             queries (the_walk s) < alpha \<and> queries w' = queries (the_walk s) + 1)
       \<and> (\<forall>d w'. advance rt (the_walk s) = Some ((None, d), w') \<longrightarrow>
             queries w' = queries (the_walk s))
       \<and> (\<forall>i e rs w'. i < length (in_flight s) \<and>
             handleResponse rt (the_walk s) ((in_flight s ! i)\<lparr>qerr := e, qresp := rs\<rparr>) = Some w' \<longrightarrow>
             queries w' = queries (the_walk s) - 1)"
proof -
  have ok: "run_ok s"
    by (rule run_run_ok[OF assms start_run_ok])
  then have w: "walk_ok (the_walk s)" and len: "queries (the_walk s) = int (length (in_flight s))"
    by (simp_all add: run_ok_def)
  have a: "queries (the_walk s) < alpha \<and> queries w' = queries (the_walk s) + 1"
    if "advance rt (the_walk s) = Some ((Some q, d), w')" for q d w'
    using advance_Some[OF that w] by simp
  have b: "queries w' = queries (the_walk s)"
    if "advance rt (the_walk s) = Some ((None, d), w')" for d w'
    using advance_None[OF that w] by simp
  have c: "queries w' = queries (the_walk s) - 1"
    if "i < length (in_flight s)"
      and "handleResponse rt (the_walk s) ((in_flight s ! i)\<lparr>qerr := e, qresp := rs\<rparr>) = Some w'"
    for i e rs w'
  proof -
    from that(1) len have "1 \<le> queries (the_walk s)" by simp
    moreover have "queries w' = int64 (queries (the_walk s) - 1)"
      using handleResponse_fields(1)[OF that(2)] by simp
    ultimately show ?thesis using w by (simp add: int64_id walk_ok_def alpha_def)
  qed
  from w have r: "0 \<le> queries (the_walk s)" "queries (the_walk s) \<le> alpha"
    by (simp_all add: walk_ok_def)
  show ?thesis
  proof (intro conjI allI impI)
    fix i e rs w'
    assume "i < length (in_flight s) \<and>
       handleResponse rt (the_walk s) ((in_flight s ! i)\<lparr>qerr := e, qresp := rs\<rparr>) = Some w'"
    then show "queries w' = queries (the_walk s) - 1" using c by blast
  qed (use r len a b in blast)+
qed

theorem queries_in_flight_bounded_witness:
  "\<exists>s w1 w2 q.
     run fixedRoute (start tab0 [N1, N2, N3]) [Advance, Advance, Handle 0 None []] = Some s
   \<and> queries (the_walk s) = 1 \<and> 0 \<le> queries (the_walk s) \<and> queries (the_walk s) \<le> alpha
   \<and> advance fixedRoute (the_walk s) = Some ((Some q, False), w1) \<and> queries w1 = 2
   \<and> 0 < length (in_flight s)
   \<and> handleResponse fixedRoute (the_walk s) ((in_flight s ! 0)\<lparr>qerr := None, qresp := []\<rparr>) = Some w2
   \<and> queries w2 = 0"
proof -
  obtain s where s: "run fixedRoute (start tab0 [N1, N2, N3]) [Advance, Advance, Handle 0 None []] = Some s"
    by (simp add: eval_simps)
  have len: "length (in_flight s) = 1"
    using s by (auto simp add: eval_simps)
  obtain q w1 where a: "advance fixedRoute (the_walk s) = Some ((Some q, False), w1)"
    using s by (auto simp add: eval_simps)
  obtain w2 where h: "handleResponse fixedRoute (the_walk s) ((in_flight s ! 0)\<lparr>qerr := None, qresp := []\<rparr>) = Some w2"
    using s by (auto simp add: eval_simps)
  from queries_in_flight_bounded[OF s] len a h s show ?thesis
    by auto
qed


section \<open>A query is never emitted together with done\<close>

text \<open>
  Claim C10. In every reachable state, when \<open>advance\<close> returns a query it returns
  \<open>done = false\<close>; and when it returns \<open>done = true\<close> it returns no query and the
  counter of queries in flight is zero.
\<close>

theorem advance_query_excludes_done:
  assumes "run rt (start t r) evs = Some s"
    and "advance rt (the_walk s) = Some ((q, fin), w')"
  shows "(q \<noteq> None \<longrightarrow> \<not> fin) \<and> (fin \<longrightarrow> q = None \<and> queries w' = 0)"
proof -
  have "run_ok s"
    by (rule run_run_ok[OF assms(1) start_run_ok])
  then have w: "walk_ok (the_walk s)" by (simp add: run_ok_def)
  show ?thesis
  proof (cases q)
    case None
    with advance_None[OF _ w, of rt fin w'] assms(2) show ?thesis by simp
  next
    case (Some qq)
    with advance_Some[OF _ w, of rt qq fin w'] assms(2) show ?thesis by simp
  qed
qed

theorem advance_query_excludes_done_witness:
  "\<exists>s q w1 s2 w2.
     run fixedRoute (start tab0 [N1]) [] = Some s
   \<and> advance fixedRoute (the_walk s) = Some ((Some q, False), w1)
   \<and> run fixedRoute (start tab0 [N1]) [Advance, Handle 0 None []] = Some s2
   \<and> advance fixedRoute (the_walk s2) = Some ((None, True), w2) \<and> queries w2 = 0"
proof -
  obtain s where s: "run fixedRoute (start tab0 [N1]) [] = Some s"
    by simp
  obtain q w1 where a: "advance fixedRoute (the_walk s) = Some ((Some q, False), w1)"
    using s by (auto simp add: eval_simps)
  obtain s2 where s2: "run fixedRoute (start tab0 [N1]) [Advance, Handle 0 None []] = Some s2"
    by (simp add: eval_simps)
  obtain w2 where b: "advance fixedRoute (the_walk s2) = Some ((None, True), w2)"
    using s2 by (auto simp add: eval_simps)
  from advance_query_excludes_done[OF s a] advance_query_excludes_done[OF s2 b] s a s2 b
  show ?thesis by auto
qed

section \<open>What the seen set holds\<close>

text \<open>
  Claim C2, as stated, fails: a node returned as a hop by \<open>advance\<close> is not put into
  \<open>seen\<close>. After one \<open>advance\<close> over the fixed route \<open>[N1]\<close> the hop \<open>N1\<close> has been
  returned and \<open>seen\<close> still holds the local ID only.
\<close>

theorem hop_not_recorded_in_seen:
  "map_option hops (run fixedRoute (start tab0 [N1]) [Advance]) = Some [N1]
   \<and> map_option (seen \<circ> the_walk) (run fixedRoute (start tab0 [N1]) [Advance]) = Some {0}
   \<and> node_ID N1 \<notin> {0}"
  by (simp add: eval_simps tab0_def N1_def)

text \<open>
  Claim C2, amended. In every reachable state a node ID is in \<open>seen\<close> if and only if it
  is the local node's ID or it appeared as a non-null entry in the response of an earlier
  \<open>handleResponse\<close> call.
\<close>

theorem seen_is_local_and_replies:
  assumes "run rt (start t r) evs = Some s"
  shows "(x \<in> seen (the_walk s)) =
         (x = node_ID (self t) \<or> (\<exists>n. Some n \<in> set (replied s) \<and> node_ID n = x))"
proof -
  have "seen_ok t s"
    by (rule run_seen_ok[OF assms start_seen_ok])
  then have "seen (the_walk s) = {node_ID (self t)} \<union> node_ID ` {n. Some n \<in> set (replied s)}"
    by (simp add: seen_ok_def dedup_fst)
  then show ?thesis by auto
qed

theorem seen_is_local_and_replies_witness:
  "\<exists>s. run fixedRoute (start tab0 [N1, N2]) [Advance, Handle 0 None [Some N3, None]] = Some s
     \<and> hops s = [N1] \<and> replied s = [Some N3, None]
     \<and> node_ID N3 \<in> seen (the_walk s) \<and> node_ID (self tab0) \<in> seen (the_walk s)
     \<and> node_ID N1 \<notin> seen (the_walk s)"
proof -
  obtain s where s: "run fixedRoute (start tab0 [N1, N2]) [Advance, Handle 0 None [Some N3, None]] = Some s"
    and h: "hops s = [N1]" and r: "replied s = [Some N3, None]"
    by (simp add: eval_simps input_simps)
  have "node_ID N1 \<noteq> node_ID (self tab0)" "node_ID N1 \<noteq> node_ID N3"
    by (simp_all add: input_simps self_def)
  with seen_is_local_and_replies[OF s, of "node_ID N3"]
       seen_is_local_and_replies[OF s, of "node_ID (self tab0)"]
       seen_is_local_and_replies[OF s, of "node_ID N1"] s h r
  show ?thesis by auto
qed

section \<open>De-duplication across the whole walk\<close>

text \<open>
  Claim C5. Across the whole walk a node ID is forwarded to \<open>addFoundNodes\<close> at most
  once: the IDs of all forwarded nodes, over all handled queries, are pairwise different,
  every forwarded node is a non-null response entry, and the forwarded nodes are exactly
  what one pass of the de-duplication loop over all response entries, starting from the
  local ID, lets through (the first occurrence of each ID). The list handed to the route
  by the next \<open>handleResponse\<close> is its reply buffer, and it shares no ID with anything
  forwarded before.
\<close>

theorem forwarded_at_most_once:
  assumes "run rt (start t r) evs = Some s"
  shows "distinct (map node_ID (forwarded s))
       \<and> set (forwarded s) \<subseteq> {n. Some n \<in> set (replied s)}
       \<and> forwarded s = snd (dedup {node_ID (self t)} [] (replied s))
       \<and> (\<forall>i e rs w'. i < length (in_flight s) \<and>
             handleResponse rt (the_walk s) ((in_flight s ! i)\<lparr>qerr := e, qresp := rs\<rparr>) = Some w' \<longrightarrow>
             r_addFoundNodes rt (replyBuffer w') (route (the_walk s)) = Some (route w')
             \<and> set (replyBuffer w') \<subseteq> {n. Some n \<in> set rs}
             \<and> distinct (map node_ID (forwarded s @ replyBuffer w')))"
proof -
  let ?s0 = "{node_ID (self t)}"
  have ok: "seen_ok t s"
    by (rule run_seen_ok[OF assms start_seen_ok])
  then have f: "forwarded s = snd (dedup ?s0 [] (replied s))"
    and sn: "seen (the_walk s) = fst (dedup ?s0 [] (replied s))"
    by (simp_all add: seen_ok_def)
  have d: "distinct (map node_ID (forwarded s))" and sub: "set (forwarded s) \<subseteq> {n. Some n \<in> set (replied s)}"
    using dedup_snd_props[of ?s0 "replied s"] f by simp_all
  have nxt: "r_addFoundNodes rt (replyBuffer w') (route (the_walk s)) = Some (route w')
             \<and> set (replyBuffer w') \<subseteq> {n. Some n \<in> set rs}
             \<and> distinct (map node_ID (forwarded s @ replyBuffer w'))"
    if h: "handleResponse rt (the_walk s) ((in_flight s ! i)\<lparr>qerr := e, qresp := rs\<rparr>) = Some w'"
    for i e rs w'
  proof -
    have a: "r_addFoundNodes rt (replyBuffer w') (route (the_walk s)) = Some (route w')"
      by (rule handleResponse_fields(5)[OF h])
    have rb: "replyBuffer w' = snd (dedup (seen (the_walk s)) [] rs)"
      using handleResponse_fields(4)[OF h] by simp
    have "dedup ?s0 [] (replied s @ rs) = dedup (seen (the_walk s)) (forwarded s) rs"
      using f sn by (simp add: dedup_append)
    then have "snd (dedup ?s0 [] (replied s @ rs)) = forwarded s @ replyBuffer w'"
      using dedup_acc[of "seen (the_walk s)" "forwarded s" rs] rb by simp
    then have "distinct (map node_ID (forwarded s @ replyBuffer w'))"
      using dedup_snd_props[of ?s0 "replied s @ rs"] by simp
    moreover have "set (replyBuffer w') \<subseteq> {n. Some n \<in> set rs}"
      using dedup_snd_props[of "seen (the_walk s)" rs] rb by simp
    ultimately show ?thesis using a by simp
  qed
  show ?thesis
  proof (intro conjI allI impI)
    fix i e rs w'
    assume "i < length (in_flight s) \<and>
       handleResponse rt (the_walk s) ((in_flight s ! i)\<lparr>qerr := e, qresp := rs\<rparr>) = Some w'"
    then have h: "handleResponse rt (the_walk s) ((in_flight s ! i)\<lparr>qerr := e, qresp := rs\<rparr>) = Some w'"
      by simp
    from nxt[OF h] show "r_addFoundNodes rt (replyBuffer w') (route (the_walk s)) = Some (route w')"
      and "set (replyBuffer w') \<subseteq> {n. Some n \<in> set rs}"
      and "distinct (map node_ID (forwarded s @ replyBuffer w'))"
      by simp_all
  qed (use d sub f in simp_all)
qed

theorem forwarded_at_most_once_witness:
  "\<exists>s w'. run fixedRoute (start tab0 [N1, N2])
            [Advance, Advance, Handle 0 None [Some N3, None, Some N3, Some N4]] = Some s
     \<and> forwarded s = [N3, N4] \<and> distinct (map node_ID (forwarded s))
     \<and> 0 < length (in_flight s)
     \<and> handleResponse fixedRoute (the_walk s)
          ((in_flight s ! 0)\<lparr>qerr := None, qresp := [Some N4, Some N1, Some N3]\<rparr>) = Some w'
     \<and> replyBuffer w' = [N1]
     \<and> distinct (map node_ID (forwarded s @ replyBuffer w'))"
proof -
  obtain s w' where s: "run fixedRoute (start tab0 [N1, N2])
            [Advance, Advance, Handle 0 None [Some N3, None, Some N3, Some N4]] = Some s"
    and f: "forwarded s = [N3, N4]" and l: "0 < length (in_flight s)"
    and h: "handleResponse fixedRoute (the_walk s)
          ((in_flight s ! 0)\<lparr>qerr := None, qresp := [Some N4, Some N1, Some N3]\<rparr>) = Some w'"
    and rb: "replyBuffer w' = [N1]"
    by (simp add: eval_simps input_simps)
  from forwarded_at_most_once[OF s] l h have
    "distinct (map node_ID (forwarded s))" "distinct (map node_ID (forwarded s @ replyBuffer w'))"
    by blast+
  with s f l h rb show ?thesis by blast
qed

section \<open>The scenario of the walk test\<close>

text \<open>
  Claim C9. Over the fixed route \<open>[n1, n2, n3, n4]\<close> with alpha = 3, the first three
  \<open>advance\<close> calls emit queries for \<open>n1\<close>, \<open>n2\<close>, \<open>n3\<close> in this order, each with
  \<open>done = false\<close>; after these are completed in the order \<open>n3\<close>, \<open>n1\<close>, \<open>n2\<close> the next
  \<open>advance\<close> emits a query for \<open>n4\<close> with \<open>done = false\<close>; after \<open>n4\<close> is completed the
  next \<open>advance\<close> returns no query and \<open>done = true\<close>. This holds for every table, all
  nodes and whatever the transport filled in; the table's log shows the order of
  completion.
\<close>

theorem fixed_route_out_of_order:
  "map_option outs (run fixedRoute (start t [n1, n2, n3, n4])
      [Advance, Advance, Advance,
       Handle 2 e3 r3, Handle 0 e1 r1, Handle 0 e2 r2,
       Advance, Handle 0 e4 r4, Advance])
   = Some [(Some (emitted n1), False), (Some (emitted n2), False), (Some (emitted n3), False),
           (Some (emitted n4), False), (None, True)]
   \<and> map_option (map fst \<circ> tab_tracked \<circ> tab \<circ> the_walk)
        (run fixedRoute (start t [n1, n2, n3, n4])
          [Advance, Advance, Advance,
           Handle 2 e3 r3, Handle 0 e1 r1, Handle 0 e2 r2,
           Advance, Handle 0 e4 r4, Advance])
     = Some (map fst (tab_tracked t) @ [n3, n1, n2, n4])"
  by (simp add: eval_simps emitted_def split: prod.splits)

section \<open>The liveness report of handleResponse\<close>

text \<open>
  Claim C8, as stated, fails: a query whose error field is populated and whose response
  is not empty is reported to the table with \<open>success = true\<close>.
\<close>

theorem failed_query_reported_live:
  "map_option (tab_tracked \<circ> tab \<circ> the_walk)
     (run fixedRoute (start tab0 [N1]) [Advance, Handle 0 (Some ''timeout'') [Some N2]])
   = Some [(N1, True, [N2])]"
  by (simp add: eval_simps input_simps)

text \<open>
  Claim C8, amended. For every query in flight, whatever its error field holds,
  \<open>handleResponse\<close> returns exactly when the route's \<open>addFoundNodes\<close> does, does not read
  the error field, decrements the counter by one, leaves \<open>inited\<close> alone (it has no way
  to signal termination), and reports the queried node to the table with \<open>success\<close>
  true exactly when the response list is non-empty; so a failed query with an empty
  response is reported with \<open>success = false\<close>.
\<close>

theorem handleResponse_reports_nonempty:
  assumes "run rt (start t r) evs = Some s"
    and "i < length (in_flight s)"
    and "q = (in_flight s ! i)\<lparr>qerr := e, qresp := rs\<rparr>"
  shows "(handleResponse rt (the_walk s) q = None)
           = (r_addFoundNodes rt (snd (dedup (seen (the_walk s)) [] rs)) (route (the_walk s)) = None)
       \<and> handleResponse rt (the_walk s) q = handleResponse rt (the_walk s) (q\<lparr>qerr := None\<rparr>)
       \<and> (\<forall>w'. handleResponse rt (the_walk s) q = Some w' \<longrightarrow>
             queries w' = queries (the_walk s) - 1
           \<and> inited w' = inited (the_walk s)
           \<and> tab w' = (tab (the_walk s))\<lparr>tab_tracked :=
                 tab_tracked (tab (the_walk s)) @ [(qnode (in_flight s ! i), rs \<noteq> [], replyBuffer w')]\<rparr>)"
proof -
  have ok: "run_ok s"
    by (rule run_run_ok[OF assms(1) start_run_ok])
  then have w: "walk_ok (the_walk s)" and len: "queries (the_walk s) = int (length (in_flight s))"
    by (simp_all add: run_ok_def)
  from assms(2) len have pos: "1 \<le> queries (the_walk s)" by simp
  have a: "(handleResponse rt (the_walk s) q = None)
           = (r_addFoundNodes rt (snd (dedup (seen (the_walk s)) [] rs)) (route (the_walk s)) = None)"
    unfolding handleResponse_def assms(3)
    by (simp split: prod.splits option.splits)
  have b: "handleResponse rt (the_walk s) q = handleResponse rt (the_walk s) (q\<lparr>qerr := None\<rparr>)"
    unfolding handleResponse_def by (simp split: prod.splits option.splits)
  have c: "queries w' = queries (the_walk s) - 1
           \<and> inited w' = inited (the_walk s)
           \<and> tab w' = (tab (the_walk s))\<lparr>tab_tracked :=
                 tab_tracked (tab (the_walk s)) @ [(qnode (in_flight s ! i), rs \<noteq> [], replyBuffer w')]\<rparr>"
    if h: "handleResponse rt (the_walk s) q = Some w'" for w'
  proof -
    have "queries w' = int64 (queries (the_walk s) - 1)"
      by (rule handleResponse_fields(1)[OF h])
    with pos w have "queries w' = queries (the_walk s) - 1"
      by (simp add: int64_id walk_ok_def alpha_def)
    moreover have "inited w' = inited (the_walk s)"
      by (rule handleResponse_fields(2)[OF h])
    moreover have "tab w' = (tab (the_walk s))\<lparr>tab_tracked :=
                 tab_tracked (tab (the_walk s)) @ [(qnode (in_flight s ! i), rs \<noteq> [], replyBuffer w')]\<rparr>"
      using handleResponse_fields(6)[OF h] by (simp add: assms(3) trackRequest_def)
    ultimately show ?thesis by simp
  qed
  from a b c show ?thesis by blast
qed

theorem handleResponse_reports_nonempty_witness:
  "\<exists>s w1 w2.
     run fixedRoute (start tab0 [N1]) [Advance] = Some s \<and> 0 < length (in_flight s)
   \<and> handleResponse fixedRoute (the_walk s)
        ((in_flight s ! 0)\<lparr>qerr := Some ''timeout'', qresp := []\<rparr>) = Some w1
   \<and> queries w1 = 0 \<and> tab_tracked (tab w1) = [(N1, False, [])]
   \<and> handleResponse fixedRoute (the_walk s)
        ((in_flight s ! 0)\<lparr>qerr := Some ''timeout'', qresp := [None]\<rparr>) = Some w2
   \<and> queries w2 = 0 \<and> tab_tracked (tab w2) = [(N1, True, [])]"
proof -
  obtain s w1 w2 where s: "run fixedRoute (start tab0 [N1]) [Advance] = Some s"
    and l: "0 < length (in_flight s)"
    and q: "queries (the_walk s) = 1" "tab_tracked (tab (the_walk s)) = []" "qnode (in_flight s ! 0) = N1"
    and h1: "handleResponse fixedRoute (the_walk s)
        ((in_flight s ! 0)\<lparr>qerr := Some ''timeout'', qresp := []\<rparr>) = Some w1"
    and r1: "replyBuffer w1 = []"
    and h2: "handleResponse fixedRoute (the_walk s)
        ((in_flight s ! 0)\<lparr>qerr := Some ''timeout'', qresp := [None]\<rparr>) = Some w2"
    and r2: "replyBuffer w2 = []"
    by (simp add: eval_simps input_simps)
  from handleResponse_reports_nonempty[OF s l refl, where e = "Some ''timeout''" and rs = "[]"] h1 q r1
  have "queries w1 = 0 \<and> tab_tracked (tab w1) = [(N1, False, [])]" by simp
  moreover from handleResponse_reports_nonempty[OF s l refl, where e = "Some ''timeout''" and rs = "[None]"] h2 q r2
  have "queries w2 = 0 \<and> tab_tracked (tab w2) = [(N1, True, [])]" by simp
  ultimately show ?thesis using s l h1 h2 by blast
qed

section \<open>The inited flag\<close>




section \<open>The distances of a FINDNODE request\<close>

text \<open>
  Claim C4, as stated, fails: for \<open>target = dest\<close> the log-distance is 0 and
  \<open>lookupDistances\<close> returns \<open>[0, 1, 2]\<close>, whose first entry is outside \<open>(0, 256]\<close>.
\<close>

theorem lookupDistances_at_self:
  "lookupDistances 5 5 = Some [0, 1, 2] \<and> \<not> dist_in_range (int (0::nat))"
  by (simp add: lookupDistances_def LogDist_def loop_0 dist_in_range_def)


text \<open>
  Claim C4, amended. For every pair of IDs with \<open>td = logdist(target, dest)\<close>,
  \<open>lookupDistances\<close> returns (the loop ends) exactly three distances: \<open>td\<close> itself,
  which is never filtered, followed by the first members of
  \<open>[td+1, td-1, td+2, td-2, \<dots>]\<close> that lie in \<open>(0, 256]\<close>. For \<open>target \<noteq> dest\<close> this is the
  sequence of the spec, \<open>[td, td+1, td-1, \<dots>]\<close> truncated to \<open>(0, 256]\<close> and capped at
  \<open>lookupRequestLimit = 3\<close> entries, and every returned distance lies in \<open>(0, 256]\<close>; for
  \<open>td = 255\<close> it is \<open>[255, 256, 254]\<close>; for \<open>target = dest\<close> it is \<open>[0, 1, 2]\<close>.
\<close>

theorem lookupDistances_result:
  "(\<exists>ds. lookupDistances tg dest = Some ds \<and> length ds = 3
        \<and> ds = take 3 (nat (LogDist tg dest) #
                    map nat (filter dist_in_range (spec_neighbours (LogDist tg dest)))))
   \<and> (tg \<noteq> dest \<longrightarrow>
        lookupDistances tg dest = Some (spec_lookupDistances (LogDist tg dest))
      \<and> list_all (\<lambda>d. 0 < d \<and> d \<le> 256) (spec_lookupDistances (LogDist tg dest)))
   \<and> (LogDist tg dest = 255 \<longrightarrow> lookupDistances tg dest = Some [255, 256, 254])
   \<and> (tg = dest \<longrightarrow> lookupDistances tg dest = Some [0, 1, 2])"
proof -
  define td where "td = LogDist tg dest"
  have r: "0 \<le> td" "td \<le> 256" "tg \<noteq> dest \<longrightarrow> 1 \<le> td" "tg = dest \<longrightarrow> td = 0"
    using LogDist_range[of tg dest] by (simp_all add: td_def)
  have l: "lookupDistances tg dest = lookupDistances_loop td 1 [go_uint td]"
    by (simp add: lookupDistances_def td_def Let_def)
  obtain rest where sn: "spec_neighbours td = [td + 1, td - 1, td + 2, td - 2] @ rest"
    using spec_neighbours_unfold by blast
  consider (z) "td = 0" | (one) "td = 1" | (mid) "2 \<le> td" "td \<le> 255" | (top) "td = 256"
    using r by linarith
  then have "(\<exists>ds. lookupDistances tg dest = Some ds \<and> length ds = 3
        \<and> ds = take 3 (nat td # map nat (filter dist_in_range (spec_neighbours td))))
   \<and> (tg \<noteq> dest \<longrightarrow>
        lookupDistances tg dest = Some (spec_lookupDistances td)
      \<and> list_all (\<lambda>d. 0 < d \<and> d \<le> 256) (spec_lookupDistances td))
   \<and> (td = 255 \<longrightarrow> lookupDistances tg dest = Some [255, 256, 254])
   \<and> (tg = dest \<longrightarrow> lookupDistances tg dest = Some [0, 1, 2])"
  proof cases
    case z
    with r l sn show ?thesis
      by (simp add: loop_0 dist_in_range_def)
  next
    case one
    with r l sn show ?thesis
      by (auto simp add: loop_1 dist_in_range_def spec_lookupDistances_def
            lookupRequestLimit_def)
  next
    case mid
    with r l sn show ?thesis
      by (auto simp add: loop_mid dist_in_range_def spec_lookupDistances_def
            lookupRequestLimit_def)
  next
    case top
    with r l sn show ?thesis
      by (auto simp add: loop_256 dist_in_range_def spec_lookupDistances_def
            lookupRequestLimit_def)
  qed
  then show ?thesis unfolding td_def .
qed


theorem lookupDistances_result_witness:
  "LogDist 0 (2 ^ 254) = 255 \<and> (0 :: ID) \<noteq> 2 ^ 254
   \<and> lookupDistances 0 (2 ^ 254) = Some [255, 256, 254]
   \<and> spec_lookupDistances 255 = [255, 256, 254]
   \<and> lookupDistances 7 7 = Some [0, 1, 2]"
proof -
  have d: "LogDist 0 (2 ^ 254) = 255" and n: "(0 :: ID) \<noteq> 2 ^ 254"
    using LogDist_example by blast+
  note t = lookupDistances_result[of 0 "2 ^ 254", unfolded d]
  from t n have a: "lookupDistances 0 (2 ^ 254) = Some [255, 256, 254]"
    by blast
  from t n have "lookupDistances 0 (2 ^ 254) = Some (spec_lookupDistances 255)"
    by blast
  with a have b: "spec_lookupDistances 255 = [255, 256, 254]"
    by simp
  from lookupDistances_result[of 7 7]
  have c: "lookupDistances 7 7 = Some [0, 1, 2]" by blast
  from a b c d n show ?thesis by blast
qed

section \<open>The buffer of the random route\<close>




section \<open>The local node is neither a hop nor forwarded\<close>

text \<open>
  Claim C6. Along every run, over any route, the local node's ID is never in a list
  that \<open>handleResponse\<close> forwards to \<open>addFoundNodes\<close>, even if it appears in a response.
  Over a table that does not report the local node, no hop returned by \<open>advance\<close>
  carries the local node's ID, for the lookup route (v4 and v5) and for the random route
  (v4 and v5).
\<close>

theorem local_node_never_hop_nor_forwarded:
  "(run rt (start t r0) evs = Some s \<longrightarrow> avoids (node_ID (self t)) (forwarded s))
   \<and> (hides_self t \<longrightarrow>
        (run lookupRoute_route (start t (newLookupRouteV5 tg)) evs = Some sl \<longrightarrow>
           avoids (node_ID (self t)) (hops sl))
      \<and> (run lookupRoute_route (start t (newLookupRouteV4 pk pkid)) evs = Some sl \<longrightarrow>
           avoids (node_ID (self t)) (hops sl))
      \<and> (run randomRouteV4 (start t (newRandomRoute g)) evs = Some sr \<longrightarrow>
           avoids (node_ID (self t)) (hops sr))
      \<and> (run randomRouteV5 (start t (newRandomRoute g)) evs = Some sr \<longrightarrow>
           avoids (node_ID (self t)) (hops sr)))"
proof (intro conjI impI)
  assume "run rt (start t r0) evs = Some s"
  then show "avoids (node_ID (self t)) (forwarded s)" by (rule forwarded_avoid_self)
next
  assume h: "hides_self t" and r: "run lookupRoute_route (start t (newLookupRouteV5 tg)) evs = Some sl"
  have "entries (l_list (newLookupRouteV5 tg)) = []" by (simp add: newLookupRouteV5_def)
  from lookup_hops_avoid_self[OF h this r] show "avoids (node_ID (self t)) (hops sl)" .
next
  assume h: "hides_self t" and r: "run lookupRoute_route (start t (newLookupRouteV4 pk pkid)) evs = Some sl"
  have "entries (l_list (newLookupRouteV4 pk pkid)) = []" by (simp add: newLookupRouteV4_def)
  from lookup_hops_avoid_self[OF h this r] show "avoids (node_ID (self t)) (hops sl)" .
next
  assume h: "hides_self t" and r: "run randomRouteV4 (start t (newRandomRoute g)) evs = Some sr"
  have "rr_buf (newRandomRoute g) = []" by (simp add: newRandomRoute_def)
  from random_hops_avoid_self[OF h this _ r] show "avoids (node_ID (self t)) (hops sr)" by simp
next
  assume h: "hides_self t" and r: "run randomRouteV5 (start t (newRandomRoute g)) evs = Some sr"
  have "rr_buf (newRandomRoute g) = []" by (simp add: newRandomRoute_def)
  from random_hops_avoid_self[OF h this _ r] show "avoids (node_ID (self t)) (hops sr)" by simp
qed

theorem local_node_never_hop_nor_forwarded_witness:
  "hides_self tab2
   \<and> (\<exists>s. run fixedRoute (start tab2 [N1]) [Advance, Handle 0 None [Some (self tab2), Some N3]] = Some s
          \<and> forwarded s = [N3] \<and> avoids (node_ID (self tab2)) (forwarded s))
   \<and> (\<exists>s. run lookupRoute_route (start tab2 (newLookupRouteV5 5)) [Advance] = Some s
          \<and> hops s = [N1] \<and> avoids (node_ID (self tab2)) (hops s))
   \<and> (\<exists>s. run lookupRoute_route (start tab2 (newLookupRouteV4 (replicate 64 0) 5)) [Advance] = Some s
          \<and> hops s = [N1] \<and> avoids (node_ID (self tab2)) (hops s))
   \<and> (\<exists>s. run randomRouteV4 (start tab2 (newRandomRoute g0)) [Advance] = Some s
          \<and> hops s = [N1] \<and> avoids (node_ID (self tab2)) (hops s))
   \<and> (\<exists>s. run randomRouteV5 (start tab2 (newRandomRoute g0)) [Advance, Advance] = Some s
          \<and> hops s = [N1, N2] \<and> avoids (node_ID (self tab2)) (hops s))"
proof -
  have h: "hides_self tab2"
    by (simp add: hides_self_def tab2_def self_def input_simps)
  obtain s1 where s1: "run fixedRoute (start tab2 [N1]) [Advance, Handle 0 None [Some (self tab2), Some N3]] = Some s1"
    and f1: "forwarded s1 = [N3]"
    by (simp add: eval_simps input_simps tab2_def)
  obtain s2 where s2: "run lookupRoute_route (start tab2 (newLookupRouteV5 5)) [Advance] = Some s2"
    and f2: "hops s2 = [N1]"
    by (simp add: eval_simps lookup_simps tab2_def)
  obtain s3 where s3: "run lookupRoute_route (start tab2 (newLookupRouteV4 (replicate 64 0) 5)) [Advance] = Some s3"
    and f3: "hops s3 = [N1]"
    by (simp add: eval_simps lookup_simps tab2_def)
  obtain s4 where s4: "run randomRouteV4 (start tab2 (newRandomRoute g0)) [Advance] = Some s4"
    and f4: "hops s4 = [N1]"
    by (simp add: eval_simps random_simps)
  obtain s5 where s5: "run randomRouteV5 (start tab2 (newRandomRoute g0)) [Advance, Advance] = Some s5"
    and f5: "hops s5 = [N1, N2]"
    by (simp add: eval_simps random_simps)
  note t1 = local_node_never_hop_nor_forwarded[of fixedRoute tab2 "[N1]" _ s1, THEN conjunct1, THEN mp, OF s1]
  note t2 = local_node_never_hop_nor_forwarded[of fixedRoute tab2 "[N1]" "[Advance]" _ 5 s2,
      THEN conjunct2, THEN mp, OF h, THEN conjunct1, THEN mp, OF s2]
  note t3 = local_node_never_hop_nor_forwarded[of fixedRoute tab2 "[N1]" "[Advance]" _ _ s3 "replicate 64 0" 5,
      THEN conjunct2, THEN mp, OF h, THEN conjunct2, THEN conjunct1, THEN mp, OF s3]
  note t4 = local_node_never_hop_nor_forwarded[of fixedRoute tab2 "[N1]" "[Advance]" _ _ _ _ _ g0 s4,
      THEN conjunct2, THEN mp, OF h, THEN conjunct2, THEN conjunct2, THEN conjunct1, THEN mp, OF s4]
  note t5 = local_node_never_hop_nor_forwarded[of fixedRoute tab2 "[N1]" "[Advance, Advance]" _ _ _ _ _ g0 s5,
      THEN conjunct2, THEN mp, OF h, THEN conjunct2, THEN conjunct2, THEN conjunct2, THEN mp, OF s5]
  from s1 f1 t1 have 1: "\<exists>s. run fixedRoute (start tab2 [N1]) [Advance, Handle 0 None [Some (self tab2), Some N3]] = Some s
          \<and> forwarded s = [N3] \<and> avoids (node_ID (self tab2)) (forwarded s)"
    by (intro exI conjI)
  from s2 f2 t2 have 2: "\<exists>s. run lookupRoute_route (start tab2 (newLookupRouteV5 5)) [Advance] = Some s
          \<and> hops s = [N1] \<and> avoids (node_ID (self tab2)) (hops s)"
    by (intro exI conjI)
  from s3 f3 t3 have 3: "\<exists>s. run lookupRoute_route (start tab2 (newLookupRouteV4 (replicate 64 0) 5)) [Advance] = Some s
          \<and> hops s = [N1] \<and> avoids (node_ID (self tab2)) (hops s)"
    by (intro exI conjI)
  from s4 f4 t4 have 4: "\<exists>s. run randomRouteV4 (start tab2 (newRandomRoute g0)) [Advance] = Some s
          \<and> hops s = [N1] \<and> avoids (node_ID (self tab2)) (hops s)"
    by (intro exI conjI)
  from s5 f5 t5 have 5: "\<exists>s. run randomRouteV5 (start tab2 (newRandomRoute g0)) [Advance, Advance] = Some s
          \<and> hops s = [N1, N2] \<and> avoids (node_ID (self tab2)) (hops s)"
    by (intro exI conjI)
  show ?thesis by (intro conjI h 1 2 3 4 5)
qed
end
